theory Spec2Isabelle
  imports Main "HOL-Library.Monad_Syntax"
begin

section \<open>The game state of pebble\_says.c\<close>

text \<open>
  The program is one C file whose state is a set of file-level statics, mutated by three
  button handlers and five timer callbacks on a single thread. The model is explicit state
  passing over a record that has one field per static, with the source's names.

  C \<open>int\<close> has 32 bits. The statics are modelled as \<open>int\<close>: in the states the program
  can reach they stay between 0 and 1250 (see \<open>game_inv\<close>), so no operation on them
  leaves 32 bits. \<open>calc_show_ms\<close> is a function of an argument it does not bound itself;
  there every arithmetic result is wrapped to 32 bits by \<open>int32\<close>, as the machine does.
  An access to \<open>s_sequence\<close> outside \<open>0..MAX_SEQUENCE-1\<close> is undefined behaviour in C; a
  handler that would make one returns \<open>None\<close>.

  The Pebble SDK is the environment. Its timer service is the list \<open>timers\<close> of registered
  timers that have neither fired nor been cancelled, with \<open>next_timer\<close> the next fresh
  handle; an \<open>AppTimer *\<close> is a \<open>nat option\<close> (\<open>NULL\<close> is \<open>None\<close>). Calls into the text
  layers, the glyph layers, the flash layer and the vibration motor are appended to
  \<open>effects\<close> in the order the code makes them. \<open>APP_LOG\<close> output is not modelled, but the
  array reads made for its arguments are. \<open>seq_reads\<close> records every evaluation of
  \<open>s_sequence[i]\<close> as the pair of \<open>i\<close> and the value of \<open>s_seq_len\<close> at that moment.

  The window and its layers exist from \<open>prv_init\<close> on, so the \<open>NULL\<close> tests of
  \<open>apply_layout\<close> and \<open>highlight_glyph\<close> never fire. Frames, fonts and colours, the
  drawing done by \<open>flash_layer_update_proc\<close>, and \<open>prv_window_unload\<close>, which runs when
  the application ends, are left out.
\<close>

definition MAX_SEQUENCE :: int where "MAX_SEQUENCE = 8"
definition SHOW_MS :: int where "SHOW_MS = 700"
definition PAUSE_MS :: int where "PAUSE_MS = 300"

text \<open>
  The value a 32-bit two's complement \<open>int\<close> holds after an operation whose exact result
  is \<open>x\<close>. Signed overflow is undefined in C; the compiled ARM code wraps.
\<close>

definition int32 :: "int \<Rightarrow> int" where
  "int32 x = (x + 2147483648) mod 4294967296 - 2147483648"

definition SEQ_BTN_UP :: int where "SEQ_BTN_UP = 0"
definition SEQ_BTN_SELECT :: int where "SEQ_BTN_SELECT = 1"
definition SEQ_BTN_DOWN :: int where "SEQ_BTN_DOWN = 2"

datatype callback =
    SequenceTimerCb
  | ClearGlyphCb int
  | ClearFeedbackCb
  | RoundTransitionCb
  | FlashTickCb int

datatype timer = Timer (t_id: nat) (t_ms: int) (t_cb: callback)

datatype vibe = ShortPulse | DoublePulse | LongPulse

datatype effect =
    ShowMessage string
  | InfoText string
  | Highlight int bool
  | Vibes vibe
  | FlashDirty
  | ApplyLayout bool int

record game =
  s_sequence :: "int list"
  s_seq_len :: int
  s_input_index :: int
  s_showing :: bool
  s_show_index :: int
  s_show_phase :: int
  s_sequence_timer :: "nat option"
  s_feedback_timer :: "nat option"
  s_transition_timer :: "nat option"
  s_flash_timer :: "nat option"
  s_game_over :: bool
  s_round :: int
  s_transitioning :: bool
  s_show_ms_current :: int
  s_flash_phase :: int
  s_flash_interval_ms :: int
  platform_chalk :: bool
  timers :: "timer list"
  next_timer :: nat
  effects :: "effect list"
  seq_reads :: "(int \<times> int) list"

subsection \<open>The environment: timers, presentation, array access\<close>

definition app_timer_register :: "int \<Rightarrow> callback \<Rightarrow> game \<Rightarrow> nat \<times> game" where
  "app_timer_register ms cb g =
     (next_timer g,
      g\<lparr>timers := timers g @ [Timer (next_timer g) ms cb],
        next_timer := Suc (next_timer g)\<rparr>)"

definition app_timer_cancel :: "nat \<Rightarrow> game \<Rightarrow> game" where
  "app_timer_cancel h g = g\<lparr>timers := filter (\<lambda>t. t_id t \<noteq> h) (timers g)\<rparr>"

definition emit :: "effect \<Rightarrow> game \<Rightarrow> game" where
  "emit e g = g\<lparr>effects := effects g @ [e]\<rparr>"

definition read_seq :: "int \<Rightarrow> game \<Rightarrow> game option" where
  "read_seq i g =
     (if 0 \<le> i \<and> i < MAX_SEQUENCE
      then Some (g\<lparr>seq_reads := seq_reads g @ [(i, s_seq_len g)]\<rparr>)
      else None)"

definition seq_at :: "game \<Rightarrow> int \<Rightarrow> int" where
  "seq_at g i = s_sequence g ! nat i"

subsection \<open>Decimal output of \<open>%d\<close>\<close>

definition digit_char :: "nat \<Rightarrow> char" where
  "digit_char d = char_of (48 + d)"

fun dec_nat :: "nat \<Rightarrow> string" where
  "dec_nat n = (if n < 10 then [digit_char n] else dec_nat (n div 10) @ [digit_char (n mod 10)])"

declare dec_nat.simps [simp del]

definition dec_int :: "int \<Rightarrow> string" where
  "dec_int i = (if i < 0 then CHR ''-'' # dec_nat (nat (- i)) else dec_nat (nat i))"

subsection \<open>The functions of the source, in its order\<close>

definition button_name :: "int \<Rightarrow> string" where
  "button_name b =
     (if b = SEQ_BTN_UP then ''Up''
      else if b = SEQ_BTN_SELECT then ''Select''
      else if b = SEQ_BTN_DOWN then ''Down''
      else ''?'')"

definition show_message :: "string \<Rightarrow> game \<Rightarrow> game" where
  "show_message msg g = emit (ShowMessage msg) g"

definition update_info_layer :: "game \<Rightarrow> game" where
  "update_info_layer g =
     emit (InfoText
       (if s_game_over g then
          (if s_seq_len g = 0 then []
           else ''Press Select to Restart'' @ [CHR 0x0A] @ ''Round: '' @ dec_int (s_round g))
        else ''Round: '' @ dec_int (s_round g))) g"

definition apply_layout :: "game \<Rightarrow> game" where
  "apply_layout g =
     (let initial_screen = (s_game_over g \<and> s_seq_len g = 0);
          info_h = (if s_game_over g \<and> \<not> initial_screen then 44 else 28)
      in emit (ApplyLayout initial_screen info_h) g)"

definition add_random_step :: "nat \<Rightarrow> game \<Rightarrow> game option" where
  "add_random_step r g =
     (if s_seq_len g < MAX_SEQUENCE then
        (if s_seq_len g < 0 then None
         else
           (let g = g\<lparr>s_sequence := (s_sequence g)[nat (s_seq_len g) := int (r mod 3)],
                      s_seq_len := s_seq_len g + 1\<rparr>
            in read_seq (s_seq_len g - 1) g))
      else Some g)"

definition calc_show_ms :: "int \<Rightarrow> int" where
  "calc_show_ms len =
     (let ms = (if len \<le> 1 then SHOW_MS
                else if len \<le> 3 then int32 (SHOW_MS - int32 (60 * int32 (len - 1)))
                else int32 (int32 (SHOW_MS - 60 * 2) - int32 (35 * int32 (len - 3))))
      in if ms < 200 then 200 else ms)"

definition highlight_glyph :: "int \<Rightarrow> bool \<Rightarrow> game \<Rightarrow> game" where
  "highlight_glyph idx on g = (if idx < 0 \<or> idx > 2 then g else emit (Highlight idx on) g)"

definition schedule_sequence_timer :: "int \<Rightarrow> game \<Rightarrow> game" where
  "schedule_sequence_timer ms g =
     (let g = (case s_sequence_timer g of Some h \<Rightarrow> app_timer_cancel h g | None \<Rightarrow> g);
          (h, g) = app_timer_register ms SequenceTimerCb g
      in g\<lparr>s_sequence_timer := Some h\<rparr>)"

definition sequence_timer_callback :: "game \<Rightarrow> game option" where
  "sequence_timer_callback g0 =
     (let g = g0\<lparr>s_sequence_timer := None\<rparr> in
      if \<not> s_showing g then Some g
      else if s_show_index g \<ge> s_seq_len g then
        (let g = g\<lparr>s_showing := False\<rparr>;
             g = highlight_glyph 0 False g;
             g = highlight_glyph 1 False g;
             g = highlight_glyph 2 False g
         in Some (show_message ''Your turn'' g))
      else if s_show_phase g = 0 then
        do {
          g \<leftarrow> read_seq (s_show_index g) g;
          let step = seq_at g (s_show_index g);
          let g = show_message (button_name step) g;
          let g = highlight_glyph step True g;
          let g = g\<lparr>s_show_phase := 1\<rparr>;
          Some (schedule_sequence_timer (s_show_ms_current g) g)
        }
      else
        do {
          let g = show_message [] g;
          g \<leftarrow> read_seq (s_show_index g) g;
          let prev_step = seq_at g (s_show_index g);
          let g = highlight_glyph prev_step False g;
          let g = g\<lparr>s_show_phase := 0\<rparr>;
          let g = g\<lparr>s_show_index := s_show_index g + 1\<rparr>;
          Some (schedule_sequence_timer PAUSE_MS g)
        })"

definition start_show_sequence :: "game \<Rightarrow> game option" where
  "start_show_sequence g =
     sequence_timer_callback
       (g\<lparr>s_showing := True, s_show_index := 0, s_show_phase := 0,
          s_transitioning := False, s_sequence_timer := None\<rparr>)"

definition begin_round :: "game \<Rightarrow> game option" where
  "begin_round g0 =
     do {
       let g = g0\<lparr>s_input_index := 0, s_show_index := 0, s_show_phase := 0,
                  s_showing := True, s_game_over := False, s_transitioning := False,
                  s_round := s_seq_len g0\<rparr>;
       let g = g\<lparr>s_show_ms_current := calc_show_ms (s_seq_len g)\<rparr>;
       let g = update_info_layer g;
       g \<leftarrow> start_show_sequence g;
       Some (apply_layout g)
     }"

definition end_game :: "game \<Rightarrow> game" where
  "end_game g0 =
     (let g = g0\<lparr>s_game_over := True, s_showing := False\<rparr>;
          g = (case s_sequence_timer g of
                 Some h \<Rightarrow> (app_timer_cancel h g)\<lparr>s_sequence_timer := None\<rparr>
               | None \<Rightarrow> g);
          g = update_info_layer g;
          g = show_message ''Game Over'' g
      in apply_layout g)"

definition clear_feedback_callback :: "game \<Rightarrow> game" where
  "clear_feedback_callback g = show_message ''Your turn'' g"

definition clear_glyph_callback :: "int \<Rightarrow> game \<Rightarrow> game" where
  "clear_glyph_callback idx g = (highlight_glyph idx False g)\<lparr>s_feedback_timer := None\<rparr>"

definition start_flash_animation :: "int \<Rightarrow> game \<Rightarrow> game" where
  "start_flash_animation cycles g0 =
     (let g = g0\<lparr>s_flash_phase := 0\<rparr>;
          g = g\<lparr>s_flash_interval_ms := (if platform_chalk g then 180 else 140)\<rparr>;
          g = emit FlashDirty g;
          g = (case s_flash_timer g of Some h \<Rightarrow> app_timer_cancel h g | None \<Rightarrow> g);
          (h, g) = app_timer_register (s_flash_interval_ms g) (FlashTickCb cycles) g
      in g\<lparr>s_flash_timer := Some h\<rparr>)"

definition flash_animation_tick :: "int \<Rightarrow> game \<Rightarrow> game" where
  "flash_animation_tick cycles g0 =
     (let g = g0\<lparr>s_flash_phase := s_flash_phase g0 + 1\<rparr>;
          g = emit FlashDirty g
      in if s_flash_phase g \<ge> cycles then g\<lparr>s_flash_timer := None\<rparr>
         else
           (let (h, g) = app_timer_register (s_flash_interval_ms g) (FlashTickCb cycles) g
            in g\<lparr>s_flash_timer := Some h\<rparr>))"

definition flash_cycles :: "int \<Rightarrow> int" where
  "flash_cycles len = (if len = 4 \<or> len = 6 then 5 else (if len = 8 then 7 else 3))"

definition start_round_transition :: "game \<Rightarrow> game" where
  "start_round_transition g0 =
     (let g = g0\<lparr>s_transitioning := True, s_showing := False\<rparr>;
          g = emit (Vibes DoublePulse) g;
          g = (if s_seq_len g = 4 \<or> s_seq_len g = 6 then emit (Vibes ShortPulse) g
               else if s_seq_len g = 8 then emit (Vibes LongPulse) g
               else g);
          g = show_message (''Length '' @ dec_int (s_seq_len g)) g;
          cycles = flash_cycles (s_seq_len g);
          g = start_flash_animation cycles g;
          g = (case s_transition_timer g of Some h \<Rightarrow> app_timer_cancel h g | None \<Rightarrow> g);
          duration = 150 * cycles + 200;
          (h, g) = app_timer_register duration RoundTransitionCb g
      in g\<lparr>s_transition_timer := Some h\<rparr>)"

definition round_transition_callback :: "game \<Rightarrow> game option" where
  "round_transition_callback g0 =
     (let g = g0\<lparr>s_transition_timer := None\<rparr>;
          g = (case s_flash_timer g of
                 Some h \<Rightarrow> (app_timer_cancel h g)\<lparr>s_flash_timer := None\<rparr>
               | None \<Rightarrow> g);
          g = g\<lparr>s_flash_phase := 0\<rparr>;
          g = emit FlashDirty g
      in begin_round g)"

definition handle_input :: "int \<Rightarrow> nat \<Rightarrow> game \<Rightarrow> game option" where
  "handle_input pressed r g0 =
     (if s_showing g0 then Some g0
      else if s_transitioning g0 then Some g0
      else if s_game_over g0 then Some g0
      else if s_input_index g0 \<ge> s_seq_len g0 then Some g0
      else
        do {
          g \<leftarrow> read_seq (s_input_index g0) g0;
          let g = highlight_glyph pressed True g;
          let g = (case s_feedback_timer g of
                     Some h \<Rightarrow> (app_timer_cancel h g)\<lparr>s_feedback_timer := None\<rparr>
                   | None \<Rightarrow> g);
          let (h, g) = app_timer_register 150 (ClearGlyphCb pressed) g;
          let g = g\<lparr>s_feedback_timer := Some h\<rparr>;
          g \<leftarrow> read_seq (s_input_index g) g;
          if pressed = seq_at g (s_input_index g) then
            do {
              let g = emit (Vibes ShortPulse) g;
              let g = g\<lparr>s_input_index := s_input_index g + 1\<rparr>;
              if s_input_index g = s_seq_len g then
                (if s_seq_len g \<ge> MAX_SEQUENCE then
                   (let g = g\<lparr>s_game_over := True\<rparr>;
                        g = update_info_layer g
                    in Some (show_message ''You win!'' g))
                 else
                   do {
                     g \<leftarrow> add_random_step r g;
                     let g = g\<lparr>s_round := s_seq_len g\<rparr>;
                     let g = update_info_layer g;
                     Some (start_round_transition g)
                   })
              else
                (let g = show_message ''Good'' g;
                     (h, g) = app_timer_register 200 ClearFeedbackCb g
                 in Some g)
            }
          else
            do {
              let g = emit (Vibes LongPulse) g;
              g \<leftarrow> read_seq (s_input_index g) g;
              Some (end_game g)
            }
        })"

definition prv_select_click_handler :: "nat \<Rightarrow> game \<Rightarrow> game option" where
  "prv_select_click_handler r g0 =
     (if s_game_over g0 then
        do {
          let g = g0\<lparr>s_seq_len := 0\<rparr>;
          let g = g\<lparr>s_round := 0\<rparr>;
          g \<leftarrow> add_random_step r g;
          g \<leftarrow> begin_round g;
          Some (apply_layout g)
        }
      else handle_input SEQ_BTN_SELECT r g0)"

definition prv_up_click_handler :: "nat \<Rightarrow> game \<Rightarrow> game option" where
  "prv_up_click_handler r g = handle_input SEQ_BTN_UP r g"

definition prv_down_click_handler :: "nat \<Rightarrow> game \<Rightarrow> game option" where
  "prv_down_click_handler r g = handle_input SEQ_BTN_DOWN r g"

subsection \<open>Start-up\<close>

text \<open>
  \<open>static_init\<close> holds the initialisers of the statics. \<open>prv_window_load\<close> is taken to
  run inside \<open>window_stack_push\<close>; only its calls that reach the presentation are kept.
\<close>

definition static_init :: "bool \<Rightarrow> game" where
  "static_init chalk =
     \<lparr>s_sequence = [0, 0, 0, 0, 0, 0, 0, 0], s_seq_len = 0, s_input_index = 0, s_showing = False,
      s_show_index = 0, s_show_phase = 0, s_sequence_timer = None, s_feedback_timer = None,
      s_transition_timer = None, s_flash_timer = None, s_game_over = False, s_round = 0,
      s_transitioning = False, s_show_ms_current = SHOW_MS, s_flash_phase = 0,
      s_flash_interval_ms = 150, platform_chalk = chalk, timers = [], next_timer = 0,
      effects = [], seq_reads = []\<rparr>"

definition prv_window_load :: "game \<Rightarrow> game" where
  "prv_window_load g0 =
     (let g = emit (ShowMessage ''Press Select'') g0;
          g = highlight_glyph 0 False g;
          g = highlight_glyph 1 False g;
          g = highlight_glyph 2 False g;
          g = update_info_layer g
      in apply_layout g)"

definition prv_init :: "bool \<Rightarrow> game" where
  "prv_init chalk =
     (let g = prv_window_load (static_init chalk);
          g = g\<lparr>s_seq_len := 0, s_round := 0, s_game_over := True\<rparr>
      in update_info_layer g)"

subsection \<open>The event loop\<close>

text \<open>
  \<open>app_event_loop\<close> delivers button presses and expired timers one at a time. A press
  carries the value the next call of \<open>rand()\<close> would return. \<open>Fire h\<close> is the expiry of the
  pending timer with handle \<open>h\<close>: the service drops it and calls its callback; when no such
  timer is pending nothing happens. Any pending timer may be the next to expire, which
  covers every order of expiry.
\<close>

datatype event = PressUp nat | PressSelect nat | PressDown nat | Fire nat

definition run_callback :: "callback \<Rightarrow> game \<Rightarrow> game option" where
  "run_callback cb g =
     (case cb of
        SequenceTimerCb \<Rightarrow> sequence_timer_callback g
      | ClearGlyphCb idx \<Rightarrow> Some (clear_glyph_callback idx g)
      | ClearFeedbackCb \<Rightarrow> Some (clear_feedback_callback g)
      | RoundTransitionCb \<Rightarrow> round_transition_callback g
      | FlashTickCb cycles \<Rightarrow> Some (flash_animation_tick cycles g))"

definition fire :: "nat \<Rightarrow> game \<Rightarrow> game option" where
  "fire h g =
     (case find (\<lambda>t. t_id t = h) (timers g) of
        None \<Rightarrow> Some g
      | Some t \<Rightarrow> run_callback (t_cb t) (g\<lparr>timers := filter (\<lambda>t. t_id t \<noteq> h) (timers g)\<rparr>))"

definition dispatch :: "event \<Rightarrow> game \<Rightarrow> game option" where
  "dispatch e g =
     (case e of
        PressUp r \<Rightarrow> prv_up_click_handler r g
      | PressSelect r \<Rightarrow> prv_select_click_handler r g
      | PressDown r \<Rightarrow> prv_down_click_handler r g
      | Fire h \<Rightarrow> fire h g)"

fun run :: "event list \<Rightarrow> game \<Rightarrow> game option" where
  "run [] g = Some g"
| "run (e # es) g = (case dispatch e g of None \<Rightarrow> None | Some g' \<Rightarrow> run es g')"

text \<open>Playback: \<open>begin_round\<close>, then \<open>n\<close> expiries of the playback timer.\<close>

definition playback_tick :: "game \<Rightarrow> game option" where
  "playback_tick g = (case s_sequence_timer g of None \<Rightarrow> Some g | Some h \<Rightarrow> fire h g)"

fun playback :: "nat \<Rightarrow> game \<Rightarrow> game option" where
  "playback 0 g = begin_round g"
| "playback (Suc n) g = (case playback n g of None \<Rightarrow> None | Some g' \<Rightarrow> playback_tick g')"

text \<open>A player entering buttons one after the other, with no timer expiring in between.\<close>

fun presses :: "int list \<Rightarrow> nat \<Rightarrow> game \<Rightarrow> game option" where
  "presses [] r g = Some g"
| "presses (p # ps) r g =
     (case handle_input p r g of None \<Rightarrow> None | Some g' \<Rightarrow> presses ps r g')"

subsection \<open>Observations used in the statements\<close>

text \<open>The session state of the data model: sequence, length, cursors, round, flags.\<close>

definition session ::
  "game \<Rightarrow> int list \<times> int \<times> int \<times> int \<times> int \<times> bool \<times> bool \<times> bool" where
  "session g =
     (s_sequence g, s_seq_len g, s_input_index g, s_show_index g, s_round g,
      s_game_over g, s_showing g, s_transitioning g)"

definition accepting_input :: "game \<Rightarrow> bool" where
  "accepting_input g \<longleftrightarrow>
     \<not> s_showing g \<and> \<not> s_transitioning g \<and> \<not> s_game_over g \<and> s_input_index g < s_seq_len g"

fun is_cue :: "effect \<Rightarrow> bool" where
  "is_cue (ShowMessage m) = True"
| "is_cue (Highlight i b) = True"
| "is_cue e = False"

definition cues :: "game \<Rightarrow> effect list" where
  "cues g = filter is_cue (effects g)"

definition cue_pair :: "int \<Rightarrow> effect list" where
  "cue_pair v = [ShowMessage (button_name v), Highlight v True, ShowMessage [], Highlight v False]"

text \<open>
  What \<open>highlight_glyph\<close>, \<open>update_info_layer\<close> and \<open>apply_layout\<close> hand to the
  presentation, as functions of the state they are called in.
\<close>

definition glyph_fx :: "int \<Rightarrow> bool \<Rightarrow> effect list" where
  "glyph_fx i b = (if i < 0 \<or> i > 2 then [] else [Highlight i b])"

definition info_text :: "game \<Rightarrow> string" where
  "info_text g = (if s_game_over g then
          (if s_seq_len g = 0 then []
           else ''Press Select to Restart'' @ [CHR 0x0A] @ ''Round: '' @ dec_int (s_round g))
        else ''Round: '' @ dec_int (s_round g))"

definition layout_fx :: "game \<Rightarrow> effect" where
  "layout_fx g = ApplyLayout (s_game_over g \<and> s_seq_len g = 0)
        (if s_game_over g \<and> \<not> (s_game_over g \<and> s_seq_len g = 0) then 44 else 28)"

definition milestone_fx :: "int \<Rightarrow> effect list" where
  "milestone_fx len = (if len = 4 \<or> len = 6 then [Vibes ShortPulse]
           else if len = 8 then [Vibes LongPulse] else [])"

text \<open>
  The two states playback alternates between, \<open>k\<close> steps after \<open>begin_round\<close> was
  called in \<open>g\<close>: step \<open>k\<close> is on display, or step \<open>k\<close> has just been taken off.
\<close>

definition displaying :: "game \<Rightarrow> nat \<Rightarrow> game \<Rightarrow> bool" where
  "displaying g k g' \<longleftrightarrow>
     s_showing g' \<and> \<not> s_game_over g' \<and> \<not> s_transitioning g' \<and> s_input_index g' = 0 \<and>
     s_show_index g' = int k \<and> s_show_phase g' = 1 \<and>
     s_seq_len g' = s_seq_len g \<and> s_sequence g' = s_sequence g \<and>
     s_show_ms_current g' = calc_show_ms (s_seq_len g) \<and>
     s_sequence_timer g' = Some (next_timer g + 2 * k) \<and>
     timers g' = timers g @
       [Timer (next_timer g + 2 * k) (calc_show_ms (s_seq_len g)) SequenceTimerCb] \<and>
     next_timer g' = Suc (next_timer g + 2 * k) \<and>
     cues g' = cues g @ concat (map cue_pair (take k (s_sequence g))) @
       [ShowMessage (button_name (s_sequence g ! k)), Highlight (s_sequence g ! k) True]"

definition pausing :: "game \<Rightarrow> nat \<Rightarrow> game \<Rightarrow> bool" where
  "pausing g k g' \<longleftrightarrow>
     s_showing g' \<and> \<not> s_game_over g' \<and> \<not> s_transitioning g' \<and> s_input_index g' = 0 \<and>
     s_show_index g' = int k + 1 \<and> s_show_phase g' = 0 \<and>
     s_seq_len g' = s_seq_len g \<and> s_sequence g' = s_sequence g \<and>
     s_show_ms_current g' = calc_show_ms (s_seq_len g) \<and>
     s_sequence_timer g' = Some (Suc (next_timer g + 2 * k)) \<and>
     timers g' = timers g @ [Timer (Suc (next_timer g + 2 * k)) PAUSE_MS SequenceTimerCb] \<and>
     next_timer g' = Suc (Suc (next_timer g + 2 * k)) \<and>
     cues g' = cues g @ concat (map cue_pair (take (Suc k) (s_sequence g)))"

text \<open>
  The categories of timers. Four of them have a handle slot among the statics; the timer
  that restores the prompt after ``Good'' is registered without keeping its handle.
\<close>

datatype category = Playback | GlyphFeedback | Acknowledge | Transition | Flash

fun category_of :: "callback \<Rightarrow> category" where
  "category_of SequenceTimerCb = Playback"
| "category_of (ClearGlyphCb idx) = GlyphFeedback"
| "category_of ClearFeedbackCb = Acknowledge"
| "category_of RoundTransitionCb = Transition"
| "category_of (FlashTickCb cycles) = Flash"

definition pending :: "category \<Rightarrow> game \<Rightarrow> timer list" where
  "pending c g = filter (\<lambda>t. category_of (t_cb t) = c) (timers g)"

subsection \<open>The invariant of the event loop\<close>

definition none_of :: "category \<Rightarrow> timer list \<Rightarrow> bool" where
  "none_of c ts \<longleftrightarrow> (\<forall>t \<in> set ts. category_of (t_cb t) \<noteq> c)"

text \<open>
  A slot owns its category: every pending timer of the category is the one the slot
  holds, and a handle in the slot is the handle of a pending timer of the category.
\<close>

definition owned :: "category \<Rightarrow> nat option \<Rightarrow> timer list \<Rightarrow> bool" where
  "owned c slot ts \<longleftrightarrow>
     (\<forall>t \<in> set ts. category_of (t_cb t) = c \<longrightarrow> slot = Some (t_id t)) \<and>
     (case slot of None \<Rightarrow> True
      | Some h \<Rightarrow> (\<exists>t \<in> set ts. t_id t = h \<and> category_of (t_cb t) = c))"

definition fresh :: "nat \<Rightarrow> timer list \<Rightarrow> bool" where
  "fresh n ts \<longleftrightarrow> distinct (map t_id ts) \<and> (\<forall>t \<in> set ts. t_id t < n)"

text \<open>What \<open>if (slot) app_timer_cancel(slot)\<close> leaves pending.\<close>

definition uncancelled :: "nat option \<Rightarrow> timer list \<Rightarrow> timer list" where
  "uncancelled slot ts = filter (\<lambda>t. Some (t_id t) \<noteq> slot) ts"

text \<open>Every recorded read of \<open>s_sequence\<close> was below the length at that moment.\<close>

definition reads_ok :: "game \<Rightarrow> bool" where
  "reads_ok g \<longleftrightarrow> (\<forall>(i, n) \<in> set (seq_reads g). 0 \<le> i \<and> i < n \<and> n \<le> MAX_SEQUENCE)"

definition steps_ok :: "game \<Rightarrow> bool" where
  "steps_ok g \<longleftrightarrow> (\<forall>i < nat (s_seq_len g). s_sequence g ! i \<in> {0, 1, 2})"

definition bounds_ok :: "game \<Rightarrow> bool" where
  "bounds_ok g \<longleftrightarrow>
     length (s_sequence g) = 8 \<and>
     0 \<le> s_input_index g \<and> s_input_index g \<le> s_seq_len g \<and>
     0 \<le> s_show_index g \<and> s_show_index g \<le> s_seq_len g \<and>
     s_seq_len g \<le> MAX_SEQUENCE"

definition slots_ok ::
  "nat \<Rightarrow> nat option \<Rightarrow> nat option \<Rightarrow> nat option \<Rightarrow> nat option \<Rightarrow> timer list \<Rightarrow> bool" where
  "slots_ok n sq fb tr fl ts \<longleftrightarrow>
     fresh n ts \<and> owned Playback sq ts \<and> owned GlyphFeedback fb ts \<and>
     owned Transition tr ts \<and> owned Flash fl ts"

definition tracked :: "game \<Rightarrow> bool" where
  "tracked g \<longleftrightarrow>
     slots_ok (next_timer g) (s_sequence_timer g) (s_feedback_timer g)
       (s_transition_timer g) (s_flash_timer g) (timers g)"

definition flags_ok :: "game \<Rightarrow> bool" where
  "flags_ok g \<longleftrightarrow>
     (s_showing g \<longrightarrow> \<not> s_game_over g) \<and>
     (s_sequence_timer g \<noteq> None \<longrightarrow> s_showing g) \<and>
     (s_transition_timer g \<noteq> None \<longrightarrow>
        s_transitioning g \<and> \<not> s_showing g \<and> \<not> s_game_over g)"

definition game_inv :: "game \<Rightarrow> bool" where
  "game_inv g \<longleftrightarrow>
     bounds_ok g \<and> reads_ok g \<and> steps_ok g \<and> tracked g \<and> flags_ok g"

section \<open>Pending timers and handle slots\<close>

lemma find_SomeD: "find P xs = Some x \<Longrightarrow> x \<in> set xs \<and> P x"
  by (induction xs) (auto split: if_splits)

lemma uncancelled_None [simp]: "uncancelled None ts = ts"
  by (simp add: uncancelled_def)

lemma uncancelled_Nil [simp]: "uncancelled s [] = []"
  by (simp add: uncancelled_def)

lemma none_of_Nil [simp]: "none_of c []"
  by (simp add: none_of_def)

lemma none_of_snoc [simp]:
  "none_of c (ts @ [Timer n ms cb]) \<longleftrightarrow> none_of c ts \<and> category_of cb \<noteq> c"
  by (auto simp: none_of_def)

lemma none_of_filter [simp]: "none_of c ts \<Longrightarrow> none_of c (filter P ts)"
  by (simp add: none_of_def)

lemma none_of_uncancelled [simp]: "none_of c ts \<Longrightarrow> none_of c (uncancelled s ts)"
  by (simp add: uncancelled_def)

lemma owned_None [simp]: "owned c None ts \<longleftrightarrow> none_of c ts"
  by (simp add: owned_def none_of_def)

lemma owned_none_of: "owned c s ts \<Longrightarrow> none_of c ts \<Longrightarrow> s = None"
  by (cases s) (auto simp: owned_def none_of_def)

lemma owned_member:
  "owned c s ts \<Longrightarrow> t \<in> set ts \<Longrightarrow> category_of (t_cb t) = c \<Longrightarrow> s = Some (t_id t)"
  by (simp add: owned_def)

lemma owned_slot_less: "owned c (Some h) ts \<Longrightarrow> fresh n ts \<Longrightarrow> h < n"
  by (auto simp: owned_def fresh_def)

lemma owned_cancel [simp]: "owned c s ts \<Longrightarrow> none_of c (uncancelled s ts)"
  by (auto simp: owned_def none_of_def uncancelled_def)

lemma owned_snoc_new [simp]:
  "none_of c ts \<Longrightarrow> category_of cb = c \<Longrightarrow> owned c (Some n) (ts @ [Timer n ms cb])"
  by (auto simp: owned_def none_of_def)

lemma owned_snoc_other [simp]:
  "category_of cb \<noteq> c \<Longrightarrow> owned c s (ts @ [Timer n ms cb]) \<longleftrightarrow> owned c s ts"
  by (auto simp: owned_def split: option.splits)

lemma same_id_same_timer:
  "distinct (map t_id ts) \<Longrightarrow> t \<in> set ts \<Longrightarrow> u \<in> set ts \<Longrightarrow> t_id t = t_id u \<Longrightarrow> t = u"
  by (meson distinct_map inj_onD)

lemma owned_uncancelled_other:
  assumes "fresh n ts" "owned c s ts" "owned c' s' ts" "c \<noteq> c'"
  shows "owned c s (uncancelled s' ts)"
proof (cases s)
  case None
  then show ?thesis using assms by simp
next
  case (Some h)
  then obtain t where t: "t \<in> set ts" "t_id t = h" "category_of (t_cb t) = c"
    using assms(2) by (auto simp: owned_def)
  have "s' \<noteq> Some h"
  proof
    assume "s' = Some h"
    then obtain u where u: "u \<in> set ts" "t_id u = h" "category_of (t_cb u) = c'"
      using assms(3) by (auto simp: owned_def)
    then have "t = u" using t assms(1) by (auto simp: fresh_def intro: same_id_same_timer)
    then show False using t u assms(4) by simp
  qed
  then have "t \<in> set (uncancelled s' ts)" using t by (auto simp: uncancelled_def)
  then have live: "\<exists>u \<in> set (uncancelled s' ts). t_id u = h \<and> category_of (t_cb u) = c"
    using t by blast
  have "\<forall>u \<in> set ts. category_of (t_cb u) = c \<longrightarrow> s = Some (t_id u)"
    using assms(2) by (simp add: owned_def)
  then have "\<forall>u \<in> set (uncancelled s' ts). category_of (t_cb u) = c \<longrightarrow> s = Some (t_id u)"
    by (simp add: uncancelled_def)
  then show ?thesis unfolding owned_def using live Some by simp
qed

lemma owned_expire_other:
  assumes "fresh n ts" "owned c s ts" "t \<in> set ts" "category_of (t_cb t) \<noteq> c"
  shows "owned c s (filter (\<lambda>u. t_id u \<noteq> t_id t) ts)"
proof (cases s)
  case None
  then show ?thesis using assms by simp
next
  case (Some h)
  then obtain u where u: "u \<in> set ts" "t_id u = h" "category_of (t_cb u) = c"
    using assms(2) by (auto simp: owned_def)
  have "t_id u \<noteq> t_id t"
    using same_id_same_timer [of ts u t] u assms by (auto simp: fresh_def)
  then have "u \<in> set (filter (\<lambda>u. t_id u \<noteq> t_id t) ts)" using u by simp
  then have live: "\<exists>v \<in> set (filter (\<lambda>u. t_id u \<noteq> t_id t) ts). t_id v = h \<and> category_of (t_cb v) = c"
    using u by blast
  have "\<forall>u \<in> set ts. category_of (t_cb u) = c \<longrightarrow> s = Some (t_id u)"
    using assms(2) by (simp add: owned_def)
  then have "\<forall>u \<in> set (filter (\<lambda>u. t_id u \<noteq> t_id t) ts). category_of (t_cb u) = c \<longrightarrow> s = Some (t_id u)"
    by simp
  then show ?thesis unfolding owned_def using live Some by simp
qed

lemma fresh_Nil [simp]: "fresh n []"
  by (simp add: fresh_def)

lemma fresh_filter [simp]: "fresh n ts \<Longrightarrow> fresh n (filter P ts)"
  by (simp add: fresh_def distinct_map_filter)

lemma fresh_uncancelled [simp]: "fresh n ts \<Longrightarrow> fresh n (uncancelled s ts)"
  by (simp add: uncancelled_def)

lemma fresh_snoc [simp]: "fresh n ts \<Longrightarrow> fresh (Suc n) (ts @ [Timer n ms cb])"
  by (fastforce simp: fresh_def)

lemma fresh_find_new:
  "fresh n ts \<Longrightarrow> find (\<lambda>t. t_id t = n) (ts @ [Timer n ms cb]) = Some (Timer n ms cb)"
  by (induction ts) (auto simp: fresh_def)

lemma fresh_filter_new:
  "fresh n ts \<Longrightarrow> filter (\<lambda>t. t_id t \<noteq> n) (ts @ [Timer n ms cb]) = ts"
  by (induction ts) (auto simp: fresh_def)

lemma find_distinct:
  "distinct (map t_id ts) \<Longrightarrow> t \<in> set ts \<Longrightarrow> find (\<lambda>u. t_id u = t_id t) ts = Some t"
  by (induction ts) (auto simp: image_iff)

lemma distinct_const_length:
  "distinct (map f xs) \<Longrightarrow> \<forall>x \<in> set xs. f x = a \<Longrightarrow> length xs \<le> Suc 0"
proof (cases xs)
  case Nil
  then show ?thesis by simp
next
  case (Cons x ys)
  assume "distinct (map f xs)" "\<forall>x \<in> set xs. f x = a"
  with Cons show ?thesis by (cases ys) auto
qed

lemma at_most_one:
  assumes "fresh n ts" "owned c s ts"
  shows "length (filter (\<lambda>t. category_of (t_cb t) = c) ts) \<le> Suc 0"
proof (cases s)
  case None
  then have "filter (\<lambda>t. category_of (t_cb t) = c) ts = []"
    using assms(2) by (simp add: none_of_def filter_empty_conv)
  then show ?thesis by simp
next
  case (Some h)
  let ?xs = "filter (\<lambda>t. category_of (t_cb t) = c) ts"
  have d: "distinct (map t_id ?xs)" using assms(1) by (simp add: fresh_def distinct_map_filter)
  have "\<forall>t \<in> set ?xs. t_id t = h" using assms(2) Some by (auto simp: owned_def)
  then show ?thesis using d by (rule distinct_const_length [rotated])
qed

section \<open>Each function as one update of the state\<close>

lemma read_seq_ok [simp]:
  "0 \<le> i \<Longrightarrow> i < 8 \<Longrightarrow> read_seq i g = Some (g\<lparr>seq_reads := seq_reads g @ [(i, s_seq_len g)]\<rparr>)"
  by (simp add: read_seq_def MAX_SEQUENCE_def)

lemma highlight_glyph_eq:
  "highlight_glyph i b g = g\<lparr>effects := effects g @ glyph_fx i b\<rparr>"
  by (simp add: highlight_glyph_def emit_def glyph_fx_def)

lemma glyph_fx_valid [simp]: "0 \<le> i \<Longrightarrow> i \<le> 2 \<Longrightarrow> glyph_fx i b = [Highlight i b]"
  by (simp add: glyph_fx_def)

lemma update_info_layer_eq: "update_info_layer g = g\<lparr>effects := effects g @ [InfoText (info_text g)]\<rparr>"
  by (simp add: update_info_layer_def emit_def info_text_def)

lemma apply_layout_eq: "apply_layout g = g\<lparr>effects := effects g @ [layout_fx g]\<rparr>"
  by (simp add: apply_layout_def emit_def layout_fx_def Let_def)

lemma show_message_eq: "show_message m g = g\<lparr>effects := effects g @ [ShowMessage m]\<rparr>"
  by (simp add: show_message_def emit_def)

lemma schedule_sequence_timer_eq:
  "schedule_sequence_timer ms g =
     g\<lparr>timers := uncancelled (s_sequence_timer g) (timers g) @
          [Timer (next_timer g) ms SequenceTimerCb],
       next_timer := Suc (next_timer g),
       s_sequence_timer := Some (next_timer g)\<rparr>"
  by (cases "s_sequence_timer g")
    (simp_all add: schedule_sequence_timer_def uncancelled_def app_timer_cancel_def app_timer_register_def)

lemma sequence_timer_callback_idle:
  "\<not> s_showing g \<Longrightarrow> sequence_timer_callback g = Some (g\<lparr>s_sequence_timer := None\<rparr>)"
  by (simp add: sequence_timer_callback_def)

lemma sequence_timer_callback_finish:
  "s_showing g \<Longrightarrow> s_seq_len g \<le> s_show_index g \<Longrightarrow>
   sequence_timer_callback g =
     Some (g\<lparr>s_sequence_timer := None, s_showing := False,
       effects := effects g @
         [Highlight 0 False, Highlight 1 False, Highlight 2 False, ShowMessage ''Your turn'']\<rparr>)"
  by (simp add: sequence_timer_callback_def highlight_glyph_eq show_message_eq)

lemma sequence_timer_callback_display:
  "s_showing g \<Longrightarrow> s_show_index g < s_seq_len g \<Longrightarrow> 0 \<le> s_show_index g \<Longrightarrow>
   s_seq_len g \<le> 8 \<Longrightarrow> s_show_phase g = 0 \<Longrightarrow>
   sequence_timer_callback g =
     Some (g\<lparr>seq_reads := seq_reads g @ [(s_show_index g, s_seq_len g)],
       effects := effects g @ ShowMessage (button_name (seq_at g (s_show_index g))) #
          glyph_fx (seq_at g (s_show_index g)) True,
       s_show_phase := 1,
       timers := timers g @ [Timer (next_timer g) (s_show_ms_current g) SequenceTimerCb],
       next_timer := Suc (next_timer g),
       s_sequence_timer := Some (next_timer g)\<rparr>)"
  by (simp add: sequence_timer_callback_def highlight_glyph_eq show_message_eq
      schedule_sequence_timer_eq seq_at_def Let_def)

lemma sequence_timer_callback_pause:
  "s_showing g \<Longrightarrow> s_show_index g < s_seq_len g \<Longrightarrow> 0 \<le> s_show_index g \<Longrightarrow>
   s_seq_len g \<le> 8 \<Longrightarrow> s_show_phase g \<noteq> 0 \<Longrightarrow>
   sequence_timer_callback g =
     Some (g\<lparr>effects := effects g @ ShowMessage [] #
          glyph_fx (seq_at g (s_show_index g)) False,
       seq_reads := seq_reads g @ [(s_show_index g, s_seq_len g)],
       s_show_phase := 0,
       s_show_index := s_show_index g + 1,
       timers := timers g @ [Timer (next_timer g) PAUSE_MS SequenceTimerCb],
       next_timer := Suc (next_timer g),
       s_sequence_timer := Some (next_timer g)\<rparr>)"
  by (simp add: sequence_timer_callback_def highlight_glyph_eq show_message_eq
      schedule_sequence_timer_eq seq_at_def Let_def)

lemma end_game_eq:
  "end_game g =
     g\<lparr>s_game_over := True, s_showing := False,
       timers := uncancelled (s_sequence_timer g) (timers g),
       s_sequence_timer := None,
       effects := effects g @
         [InfoText (info_text (g\<lparr>s_game_over := True\<rparr>)), ShowMessage ''Game Over'',
          layout_fx (g\<lparr>s_game_over := True\<rparr>)]\<rparr>"
  by (cases "s_sequence_timer g")
    (simp_all add: end_game_def update_info_layer_eq show_message_eq apply_layout_eq
      app_timer_cancel_def uncancelled_def info_text_def layout_fx_def)

lemma begin_round_eq:
  assumes "0 < s_seq_len g" "s_seq_len g \<le> 8"
  shows "begin_round g =
     Some (g\<lparr>s_input_index := 0, s_show_index := 0, s_show_phase := 1, s_showing := True,
       s_game_over := False, s_transitioning := False, s_round := s_seq_len g,
       s_show_ms_current := calc_show_ms (s_seq_len g),
       effects := effects g @
         [InfoText (''Round: '' @ dec_int (s_seq_len g)), ShowMessage (button_name (seq_at g 0))] @
         glyph_fx (seq_at g 0) True @ [ApplyLayout False 28],
       seq_reads := seq_reads g @ [(0, s_seq_len g)],
       timers := timers g @ [Timer (next_timer g) (calc_show_ms (s_seq_len g)) SequenceTimerCb],
       next_timer := Suc (next_timer g),
       s_sequence_timer := Some (next_timer g)\<rparr>)"
  using assms
  by (simp add: begin_round_def start_show_sequence_def update_info_layer_eq info_text_def
      sequence_timer_callback_display apply_layout_eq layout_fx_def seq_at_def)

lemma begin_round_empty:
  assumes "s_seq_len g \<le> 0"
  shows "begin_round g =
     Some (g\<lparr>s_input_index := 0, s_show_index := 0, s_show_phase := 0, s_showing := False,
       s_game_over := False, s_transitioning := False, s_round := s_seq_len g,
       s_show_ms_current := calc_show_ms (s_seq_len g),
       effects := effects g @
         [InfoText (''Round: '' @ dec_int (s_seq_len g)),
          Highlight 0 False, Highlight 1 False, Highlight 2 False, ShowMessage ''Your turn'',
          ApplyLayout False 28],
       s_sequence_timer := None\<rparr>)"
  using assms
  by (simp add: begin_round_def start_show_sequence_def update_info_layer_eq info_text_def
      sequence_timer_callback_finish apply_layout_eq layout_fx_def)

lemma add_random_step_eq:
  assumes "0 \<le> s_seq_len g" "s_seq_len g < 8"
  shows "add_random_step r g =
     Some (g\<lparr>s_sequence := (s_sequence g)[nat (s_seq_len g) := int (r mod 3)],
       s_seq_len := s_seq_len g + 1,
       seq_reads := seq_reads g @ [(s_seq_len g, s_seq_len g + 1)]\<rparr>)"
  using assms by (simp add: add_random_step_def MAX_SEQUENCE_def)

lemma flash_animation_tick_eq:
  "flash_animation_tick c g =
     (if c \<le> s_flash_phase g + 1
      then g\<lparr>s_flash_phase := s_flash_phase g + 1, effects := effects g @ [FlashDirty],
             s_flash_timer := None\<rparr>
      else g\<lparr>s_flash_phase := s_flash_phase g + 1, effects := effects g @ [FlashDirty],
             timers := timers g @ [Timer (next_timer g) (s_flash_interval_ms g) (FlashTickCb c)],
             next_timer := Suc (next_timer g),
             s_flash_timer := Some (next_timer g)\<rparr>)"
  by (simp add: flash_animation_tick_def emit_def app_timer_register_def Let_def)

lemma clear_glyph_callback_eq:
  "clear_glyph_callback i g = g\<lparr>effects := effects g @ glyph_fx i False, s_feedback_timer := None\<rparr>"
  by (simp add: clear_glyph_callback_def highlight_glyph_eq)

lemma clear_feedback_callback_eq:
  "clear_feedback_callback g = g\<lparr>effects := effects g @ [ShowMessage ''Your turn'']\<rparr>"
  by (simp add: clear_feedback_callback_def show_message_eq)

lemma start_flash_animation_eq:
  "start_flash_animation c g =
     g\<lparr>s_flash_phase := 0, s_flash_interval_ms := (if platform_chalk g then 180 else 140),
       effects := effects g @ [FlashDirty],
       timers := uncancelled (s_flash_timer g) (timers g) @
          [Timer (next_timer g) (if platform_chalk g then 180 else 140) (FlashTickCb c)],
       next_timer := Suc (next_timer g),
       s_flash_timer := Some (next_timer g)\<rparr>"
  by (cases "s_flash_timer g")
    (simp_all add: start_flash_animation_def uncancelled_def emit_def app_timer_cancel_def app_timer_register_def)

lemma start_round_transition_eq:
  "start_round_transition g =
     g\<lparr>s_transitioning := True, s_showing := False,
       effects := effects g @ [Vibes DoublePulse] @ milestone_fx (s_seq_len g) @
          [ShowMessage (''Length '' @ dec_int (s_seq_len g)), FlashDirty],
       s_flash_phase := 0, s_flash_interval_ms := (if platform_chalk g then 180 else 140),
       timers := uncancelled (s_transition_timer g) (uncancelled (s_flash_timer g) (timers g) @
          [Timer (next_timer g) (if platform_chalk g then 180 else 140)
             (FlashTickCb (flash_cycles (s_seq_len g)))]) @
          [Timer (Suc (next_timer g)) (150 * flash_cycles (s_seq_len g) + 200) RoundTransitionCb],
       next_timer := Suc (Suc (next_timer g)),
       s_flash_timer := Some (next_timer g),
       s_transition_timer := Some (Suc (next_timer g))\<rparr>"
proof -
  have m: "\<And>g::game. (if s_seq_len g = 4 \<or> s_seq_len g = 6 then emit (Vibes ShortPulse) g
               else if s_seq_len g = 8 then emit (Vibes LongPulse) g
               else g) = g\<lparr>effects := effects g @ milestone_fx (s_seq_len g)\<rparr>"
    by (simp add: emit_def milestone_fx_def)
  show ?thesis
    unfolding start_round_transition_def Let_def m start_flash_animation_eq
    by (cases "s_transition_timer g")
      (simp_all del: filter_filter add: uncancelled_def emit_def show_message_def app_timer_cancel_def app_timer_register_def)
qed

lemma round_transition_callback_eq:
  "round_transition_callback g =
     begin_round (g\<lparr>s_transition_timer := None,
       timers := uncancelled (s_flash_timer g) (timers g),
       s_flash_timer := None, s_flash_phase := 0,
       effects := effects g @ [FlashDirty]\<rparr>)"
  unfolding round_transition_callback_def Let_def
  by (rule arg_cong [where f = begin_round], cases "s_flash_timer g")
    (simp_all add: uncancelled_def emit_def app_timer_cancel_def)

lemma handle_input_ignored:
  "s_showing g \<or> s_transitioning g \<or> s_game_over g \<or> s_seq_len g \<le> s_input_index g \<Longrightarrow>
   handle_input p r g = Some g"
  by (auto simp: handle_input_def)

lemma handle_input_wrong:
  assumes "accepting_input g" "0 \<le> s_input_index g" "s_seq_len g \<le> 8"
    "p \<noteq> seq_at g (s_input_index g)"
  shows "handle_input p r g =
     Some (g\<lparr>seq_reads := seq_reads g @ replicate 3 (s_input_index g, s_seq_len g),
       effects := effects g @ glyph_fx p True @
         [Vibes LongPulse, InfoText (info_text (g\<lparr>s_game_over := True\<rparr>)),
          ShowMessage ''Game Over'', layout_fx (g\<lparr>s_game_over := True\<rparr>)],
       timers := uncancelled (s_sequence_timer g)
          (uncancelled (s_feedback_timer g) (timers g) @
           [Timer (next_timer g) 150 (ClearGlyphCb p)]),
       next_timer := Suc (next_timer g),
       s_feedback_timer := Some (next_timer g),
       s_game_over := True, s_showing := False, s_sequence_timer := None\<rparr>)"
  using assms
  by (cases "s_feedback_timer g")
    (simp_all add: handle_input_def accepting_input_def highlight_glyph_eq emit_def
      app_timer_cancel_def app_timer_register_def end_game_eq seq_at_def uncancelled_def
      info_text_def layout_fx_def numeral_3_eq_3 del: filter_filter)

lemma handle_input_good:
  assumes "accepting_input g" "0 \<le> s_input_index g" "s_seq_len g \<le> 8"
    "p = seq_at g (s_input_index g)" "s_input_index g + 1 \<noteq> s_seq_len g"
  shows "handle_input p r g =
     Some (g\<lparr>seq_reads := seq_reads g @ replicate 2 (s_input_index g, s_seq_len g),
       effects := effects g @ glyph_fx p True @ [Vibes ShortPulse, ShowMessage ''Good''],
       timers := uncancelled (s_feedback_timer g) (timers g) @
           [Timer (next_timer g) 150 (ClearGlyphCb p),
            Timer (Suc (next_timer g)) 200 ClearFeedbackCb],
       next_timer := Suc (Suc (next_timer g)),
       s_feedback_timer := Some (next_timer g),
       s_input_index := s_input_index g + 1\<rparr>)"
  using assms
  by (cases "s_feedback_timer g")
    (simp_all add: handle_input_def accepting_input_def highlight_glyph_eq emit_def
      app_timer_cancel_def app_timer_register_def show_message_eq seq_at_def uncancelled_def
      numeral_2_eq_2)

lemma handle_input_win:
  assumes "accepting_input g" "0 \<le> s_input_index g" "s_seq_len g \<le> 8"
    "p = seq_at g (s_input_index g)" "s_input_index g + 1 = s_seq_len g" "8 \<le> s_seq_len g"
  shows "handle_input p r g =
     Some (g\<lparr>seq_reads := seq_reads g @ replicate 2 (s_input_index g, s_seq_len g),
       effects := effects g @ glyph_fx p True @
         [Vibes ShortPulse, InfoText (info_text (g\<lparr>s_game_over := True\<rparr>)),
          ShowMessage ''You win!''],
       timers := uncancelled (s_feedback_timer g) (timers g) @
           [Timer (next_timer g) 150 (ClearGlyphCb p)],
       next_timer := Suc (next_timer g),
       s_feedback_timer := Some (next_timer g),
       s_input_index := s_input_index g + 1,
       s_game_over := True\<rparr>)"
  using assms
  by (cases "s_feedback_timer g")
    (simp_all add: handle_input_def accepting_input_def highlight_glyph_eq emit_def
      app_timer_cancel_def app_timer_register_def show_message_eq seq_at_def uncancelled_def
      update_info_layer_eq info_text_def MAX_SEQUENCE_def numeral_2_eq_2)

lemma handle_input_complete:
  assumes "accepting_input g" "0 \<le> s_input_index g"
    "p = seq_at g (s_input_index g)" "s_input_index g + 1 = s_seq_len g" "s_seq_len g < 8"
  shows "handle_input p r g =
     Some (start_round_transition
       (g\<lparr>seq_reads := seq_reads g @ replicate 2 (s_input_index g, s_seq_len g) @
           [(s_seq_len g, s_seq_len g + 1)],
         effects := effects g @ glyph_fx p True @
           [Vibes ShortPulse, InfoText (''Round: '' @ dec_int (s_seq_len g + 1))],
         timers := uncancelled (s_feedback_timer g) (timers g) @
           [Timer (next_timer g) 150 (ClearGlyphCb p)],
         next_timer := Suc (next_timer g),
         s_feedback_timer := Some (next_timer g),
         s_input_index := s_input_index g + 1,
         s_sequence := (s_sequence g)[nat (s_seq_len g) := int (r mod 3)],
         s_seq_len := s_seq_len g + 1,
         s_round := s_seq_len g + 1\<rparr>))"
proof -
  have "s_feedback_timer g = None \<or> (\<exists>h. s_feedback_timer g = Some h)"
    by (cases "s_feedback_timer g") simp_all
  then show ?thesis
    using assms
    apply -
    apply (elim disjE exE)
     apply (simp_all add: handle_input_def accepting_input_def highlight_glyph_eq emit_def
        app_timer_cancel_def app_timer_register_def seq_at_def uncancelled_def
        update_info_layer_eq info_text_def MAX_SEQUENCE_def add_random_step_eq numeral_2_eq_2)
     apply (rule arg_cong [where f = start_round_transition], simp)+
    done
qed

lemma expire_uncancelled: "filter (\<lambda>u. t_id u \<noteq> h) ts = uncancelled (Some h) ts"
  by (simp add: uncancelled_def)

lemma slots_cancel_playback [simp]:
  "slots_ok n sq fb tr fl ts \<Longrightarrow> slots_ok n None fb tr fl (uncancelled sq ts)"
  unfolding slots_ok_def
  by (auto intro: owned_uncancelled_other [where c' = Playback])

lemma slots_cancel_feedback [simp]:
  "slots_ok n sq fb tr fl ts \<Longrightarrow> slots_ok n sq None tr fl (uncancelled fb ts)"
  unfolding slots_ok_def
  by (auto intro: owned_uncancelled_other [where c' = GlyphFeedback])

lemma slots_cancel_transition [simp]:
  "slots_ok n sq fb tr fl ts \<Longrightarrow> slots_ok n sq fb None fl (uncancelled tr ts)"
  unfolding slots_ok_def
  by (auto intro: owned_uncancelled_other [where c' = Transition])

lemma slots_cancel_flash [simp]:
  "slots_ok n sq fb tr fl ts \<Longrightarrow> slots_ok n sq fb tr None (uncancelled fl ts)"
  unfolding slots_ok_def
  by (auto intro: owned_uncancelled_other [where c' = Flash])

lemma slots_register_playback [simp]:
  "slots_ok n None fb tr fl ts \<Longrightarrow>
   slots_ok (Suc n) (Some n) fb tr fl (ts @ [Timer n ms SequenceTimerCb])"
  by (simp add: slots_ok_def)

lemma slots_register_feedback [simp]:
  "slots_ok n sq None tr fl ts \<Longrightarrow>
   slots_ok (Suc n) sq (Some n) tr fl (ts @ [Timer n ms (ClearGlyphCb i)])"
  by (simp add: slots_ok_def)

lemma slots_register_transition [simp]:
  "slots_ok n sq fb None fl ts \<Longrightarrow>
   slots_ok (Suc n) sq fb (Some n) fl (ts @ [Timer n ms RoundTransitionCb])"
  by (simp add: slots_ok_def)

lemma slots_register_flash [simp]:
  "slots_ok n sq fb tr None ts \<Longrightarrow>
   slots_ok (Suc n) sq fb tr (Some n) (ts @ [Timer n ms (FlashTickCb c)])"
  by (simp add: slots_ok_def)

lemma slots_register_acknowledge [simp]:
  "slots_ok n sq fb tr fl ts \<Longrightarrow>
   slots_ok (Suc n) sq fb tr fl (ts @ [Timer n ms ClearFeedbackCb])"
  by (simp add: slots_ok_def)

lemma slots_expire:
  assumes "slots_ok n sq fb tr fl ts" "t \<in> set ts"
  shows "case category_of (t_cb t) of
      Playback \<Rightarrow> sq = Some (t_id t) \<and> slots_ok n None fb tr fl (filter (\<lambda>u. t_id u \<noteq> t_id t) ts)
    | GlyphFeedback \<Rightarrow> fb = Some (t_id t) \<and> slots_ok n sq None tr fl (filter (\<lambda>u. t_id u \<noteq> t_id t) ts)
    | Acknowledge \<Rightarrow> slots_ok n sq fb tr fl (filter (\<lambda>u. t_id u \<noteq> t_id t) ts)
    | Transition \<Rightarrow> tr = Some (t_id t) \<and> slots_ok n sq fb None fl (filter (\<lambda>u. t_id u \<noteq> t_id t) ts)
    | Flash \<Rightarrow> fl = Some (t_id t) \<and> slots_ok n sq fb tr None (filter (\<lambda>u. t_id u \<noteq> t_id t) ts)"
proof (cases "category_of (t_cb t)")
  case Playback
  then have "sq = Some (t_id t)" using assms by (auto simp: slots_ok_def dest: owned_member)
  then show ?thesis using Playback slots_cancel_playback [OF assms(1)]
    by (simp add: expire_uncancelled)
next
  case GlyphFeedback
  then have "fb = Some (t_id t)" using assms by (auto simp: slots_ok_def dest: owned_member)
  then show ?thesis using GlyphFeedback slots_cancel_feedback [OF assms(1)]
    by (simp add: expire_uncancelled)
next
  case Acknowledge
  then show ?thesis using assms
    by (auto simp: slots_ok_def intro: owned_expire_other)
next
  case Transition
  then have "tr = Some (t_id t)" using assms by (auto simp: slots_ok_def dest: owned_member)
  then show ?thesis using Transition slots_cancel_transition [OF assms(1)]
    by (simp add: expire_uncancelled)
next
  case Flash
  then have "fl = Some (t_id t)" using assms by (auto simp: slots_ok_def dest: owned_member)
  then show ?thesis using Flash slots_cancel_flash [OF assms(1)]
    by (simp add: expire_uncancelled)
qed

section \<open>The invariant is kept by every event\<close>

lemmas inv_defs = game_inv_def bounds_ok_def reads_ok_def steps_ok_def tracked_def flags_ok_def

lemma rand_step_valid: "int (r mod 3) \<in> {0, 1, 2}"
  by (simp add: zmod_int) presburger

lemma slots_register_feedback_ack [simp]:
  assumes "slots_ok n sq None tr fl ts"
  shows "slots_ok (Suc (Suc n)) sq (Some n) tr fl
     (ts @ [Timer n ms (ClearGlyphCb i), Timer (Suc n) ms' ClearFeedbackCb])"
  using slots_register_acknowledge [OF slots_register_feedback [OF assms]] by simp

lemma slots_register_flash_transition [simp]:
  assumes "slots_ok n sq fb None None ts"
  shows "slots_ok (Suc (Suc n)) sq fb (Some (Suc n)) (Some n)
     (ts @ [Timer n ms (FlashTickCb c), Timer (Suc n) ms' RoundTransitionCb])"
  using slots_register_transition [OF slots_register_flash [OF assms]] by simp

lemma inv_sequence_timer_callback:
  assumes "bounds_ok g" "reads_ok g" "steps_ok g"
    "slots_ok (next_timer g) None (s_feedback_timer g) (s_transition_timer g) (s_flash_timer g)
       (timers g)"
    "s_showing g \<longrightarrow> \<not> s_game_over g \<and> s_transition_timer g = None"
    "s_transition_timer g \<noteq> None \<longrightarrow> s_transitioning g \<and> \<not> s_game_over g"
  shows "\<exists>g'. sequence_timer_callback g = Some g' \<and> game_inv g'"
proof -
  consider (idle) "\<not> s_showing g"
    | (finish) "s_showing g" "s_seq_len g \<le> s_show_index g"
    | (display) "s_showing g" "s_show_index g < s_seq_len g" "s_show_phase g = 0"
    | (pause) "s_showing g" "s_show_index g < s_seq_len g" "s_show_phase g \<noteq> 0"
    by linarith
  then show ?thesis
  proof cases
    case idle
    then show ?thesis using assms
      by (simp add: sequence_timer_callback_idle inv_defs)
  next
    case finish
    then show ?thesis using assms
      by (simp add: sequence_timer_callback_finish inv_defs)
  next
    case display
    then show ?thesis using assms
      by (simp add: sequence_timer_callback_display inv_defs MAX_SEQUENCE_def)
  next
    case pause
    then show ?thesis using assms
      by (simp add: sequence_timer_callback_pause inv_defs MAX_SEQUENCE_def)
  qed
qed

lemma inv_begin_round:
  assumes "length (s_sequence g) = 8" "0 \<le> s_seq_len g" "s_seq_len g \<le> 8"
    "reads_ok g" "steps_ok g"
    "s_transition_timer g = None"
    "slots_ok (next_timer g) None (s_feedback_timer g) None (s_flash_timer g) (timers g)"
  shows "\<exists>g'. begin_round g = Some g' \<and> game_inv g'"
proof (cases "s_seq_len g = 0")
  case True
  then show ?thesis using assms
    by (simp add: begin_round_empty inv_defs MAX_SEQUENCE_def)
next
  case False
  then show ?thesis using assms
    by (simp add: begin_round_eq inv_defs MAX_SEQUENCE_def)
qed

lemma inv_handle_input:
  assumes "game_inv g"
  shows "\<exists>g'. handle_input p r g = Some g' \<and> game_inv g'"
proof (cases "accepting_input g")
  case False
  then have "handle_input p r g = Some g"
    by (intro handle_input_ignored) (auto simp: accepting_input_def)
  then show ?thesis using assms by simp
next
  case True
  have b: "0 \<le> s_input_index g" "s_seq_len g \<le> 8"
    using assms by (simp_all add: inv_defs MAX_SEQUENCE_def)
  have n: "s_sequence_timer g = None" "s_transition_timer g = None"
    using assms True by (auto simp: inv_defs accepting_input_def)
  consider (wrong) "p \<noteq> seq_at g (s_input_index g)"
    | (good) "p = seq_at g (s_input_index g)" "s_input_index g + 1 \<noteq> s_seq_len g"
    | (win) "p = seq_at g (s_input_index g)" "s_input_index g + 1 = s_seq_len g" "8 \<le> s_seq_len g"
    | (complete) "p = seq_at g (s_input_index g)" "s_input_index g + 1 = s_seq_len g" "s_seq_len g < 8"
    by linarith
  then show ?thesis
  proof cases
    case wrong
    show ?thesis
      unfolding handle_input_wrong [OF True b wrong]
      using assms True n by (simp add: inv_defs accepting_input_def)
  next
    case good
    show ?thesis
      unfolding handle_input_good [OF True b good]
      using assms True n good by (simp add: inv_defs accepting_input_def)
  next
    case win
    show ?thesis
      unfolding handle_input_win [OF True b win]
      using assms True n win by (simp add: inv_defs accepting_input_def)
  next
    case complete
    show ?thesis
      unfolding handle_input_complete [OF True b(1) complete] start_round_transition_eq
      using assms True n complete rand_step_valid [of r]
      by (simp add: inv_defs accepting_input_def MAX_SEQUENCE_def nth_list_update)
  qed
qed

lemma select_restart_eq:
  assumes "s_game_over g"
  shows "prv_select_click_handler r g =
     Some (g\<lparr>s_sequence := (s_sequence g)[0 := int (r mod 3)],
       s_seq_len := 1, s_round := 1,
       seq_reads := seq_reads g @ [(0, 1), (0, 1)],
       s_input_index := 0, s_show_index := 0, s_show_phase := 1, s_showing := True,
       s_game_over := False, s_transitioning := False,
       s_show_ms_current := calc_show_ms 1,
       effects := effects g @
         [InfoText (''Round: '' @ dec_int 1),
          ShowMessage (button_name ((s_sequence g)[0 := int (r mod 3)] ! 0))] @
         glyph_fx ((s_sequence g)[0 := int (r mod 3)] ! 0) True @
         [ApplyLayout False 28, ApplyLayout False 28],
       timers := timers g @ [Timer (next_timer g) (calc_show_ms 1) SequenceTimerCb],
       next_timer := Suc (next_timer g),
       s_sequence_timer := Some (next_timer g)\<rparr>)"
  using assms
  by (simp add: prv_select_click_handler_def add_random_step_eq begin_round_eq apply_layout_eq
      layout_fx_def seq_at_def)

lemma select_forward:
  "\<not> s_game_over g \<Longrightarrow> prv_select_click_handler r g = handle_input SEQ_BTN_SELECT r g"
  by (simp add: prv_select_click_handler_def)

lemma inv_select:
  assumes "game_inv g"
  shows "\<exists>g'. prv_select_click_handler r g = Some g' \<and> game_inv g'"
proof (cases "s_game_over g")
  case False
  then show ?thesis using inv_handle_input [OF assms] by (simp add: select_forward)
next
  case True
  then have n: "s_sequence_timer g = None" "s_transition_timer g = None"
    using assms by (auto simp: inv_defs)
  show ?thesis
    unfolding select_restart_eq [OF True]
    using assms n rand_step_valid [of r]
    by (simp add: inv_defs MAX_SEQUENCE_def)
qed

lemma inv_fire:
  assumes "game_inv g"
  shows "\<exists>g'. fire h g = Some g' \<and> game_inv g'"
proof (cases "find (\<lambda>t. t_id t = h) (timers g)")
  case None
  then show ?thesis using assms by (simp add: fire_def)
next
  case (Some t)
  then have t: "t \<in> set (timers g)" "t_id t = h" by (auto dest: find_SomeD)
  let ?g = "g\<lparr>timers := filter (\<lambda>u. t_id u \<noteq> t_id t) (timers g)\<rparr>"
  have f: "fire h g = run_callback (t_cb t) ?g"
    using Some t by (simp add: fire_def)
  have s: "slots_ok (next_timer g) (s_sequence_timer g) (s_feedback_timer g)
       (s_transition_timer g) (s_flash_timer g) (timers g)"
    using assms by (simp add: inv_defs)
  note e = slots_expire [OF s t(1)]
  show ?thesis
  proof (cases "t_cb t")
    case SequenceTimerCb
    then have "\<exists>g'. sequence_timer_callback ?g = Some g' \<and> game_inv g'"
      using e assms by (intro inv_sequence_timer_callback) (auto simp: inv_defs)
    then show ?thesis using f SequenceTimerCb by (simp add: run_callback_def)
  next
    case (ClearGlyphCb i)
    then have "game_inv (clear_glyph_callback i ?g)"
      using e assms by (simp add: clear_glyph_callback_eq inv_defs)
    then show ?thesis using f ClearGlyphCb by (simp add: run_callback_def)
  next
    case ClearFeedbackCb
    then have "game_inv (clear_feedback_callback ?g)"
      using e assms by (simp add: clear_feedback_callback_eq inv_defs)
    then show ?thesis using f ClearFeedbackCb by (simp add: run_callback_def)
  next
    case RoundTransitionCb
    then have tr: "s_transition_timer g = Some (t_id t)" using e by simp
    then have q: "s_sequence_timer g = None" using assms by (auto simp: inv_defs)
    have "\<exists>g'. round_transition_callback ?g = Some g' \<and> game_inv g'"
      unfolding round_transition_callback_eq
      using e assms RoundTransitionCb q
      by (intro inv_begin_round) (simp_all add: inv_defs MAX_SEQUENCE_def)
    then show ?thesis using f RoundTransitionCb by (simp add: run_callback_def)
  next
    case (FlashTickCb c)
    then have "game_inv (flash_animation_tick c ?g)"
      using e assms by (simp add: flash_animation_tick_eq inv_defs)
    then show ?thesis using f FlashTickCb by (simp add: run_callback_def)
  qed
qed

lemma inv_dispatch:
  assumes "game_inv g"
  shows "\<exists>g'. dispatch e g = Some g' \<and> game_inv g'"
  using inv_handle_input [OF assms] inv_select [OF assms] inv_fire [OF assms]
  by (cases e) (simp_all add: dispatch_def prv_up_click_handler_def prv_down_click_handler_def)

lemma inv_run:
  "game_inv g \<Longrightarrow> \<exists>g'. run es g = Some g' \<and> game_inv g'"
proof (induction es arbitrary: g)
  case Nil
  then show ?case by simp
next
  case (Cons e es)
  from inv_dispatch [OF Cons.prems, of e] obtain g1
    where g1: "dispatch e g = Some g1" "game_inv g1" by blast
  from Cons.IH [OF g1(2)] g1(1) show ?case by simp
qed

lemma prv_init_eq:
  "prv_init chalk =
     (static_init chalk)\<lparr>s_game_over := True,
       effects := [ShowMessage ''Press Select'', Highlight 0 False, Highlight 1 False,
         Highlight 2 False, InfoText (''Round: '' @ dec_int 0), ApplyLayout False 28,
         InfoText []]\<rparr>"
  by (simp add: prv_init_def prv_window_load_def static_init_def emit_def highlight_glyph_def
      update_info_layer_def apply_layout_def Let_def)

lemma inv_prv_init: "game_inv (prv_init chalk)"
  by (simp add: prv_init_eq static_init_def inv_defs slots_ok_def MAX_SEQUENCE_def)

lemma inv_reachable:
  "run es (prv_init chalk) = Some g \<Longrightarrow> game_inv g"
  using inv_run [OF inv_prv_init, of es chalk] by simp

section \<open>Timing policy\<close>






section \<open>The claims\<close>

text \<open>
  C7. While the sequence is being shown, during the round transition, or after the game is
  over, a press of UP or DOWN returns the state as it was: no field changes and nothing is
  signalled. A press of SELECT does the same unless the game is over; when it is over,
  SELECT restarts and the session changes.
\<close>

theorem ignored_press_changes_nothing:
  assumes "s_showing g \<or> s_transitioning g \<or> s_game_over g"
  shows "prv_up_click_handler r g = Some g \<and> prv_down_click_handler r g = Some g \<and>
    (\<not> s_game_over g \<longrightarrow> prv_select_click_handler r g = Some g) \<and>
    (s_game_over g \<longrightarrow>
       (\<exists>g'. prv_select_click_handler r g = Some g' \<and> session g' \<noteq> session g))"
  using assms
  by (auto simp: prv_up_click_handler_def prv_down_click_handler_def handle_input_ignored
      select_forward select_restart_eq session_def)

theorem ignored_press_changes_nothing_witness:
  "s_game_over (prv_init False) \<and>
   prv_up_click_handler 0 (prv_init False) = Some (prv_init False) \<and>
   prv_down_click_handler 0 (prv_init False) = Some (prv_init False) \<and>
   s_showing (the (prv_select_click_handler 0 (prv_init False))) \<and>
   \<not> s_game_over (the (prv_select_click_handler 0 (prv_init False))) \<and>
   prv_up_click_handler 0 (the (prv_select_click_handler 0 (prv_init False))) =
     prv_select_click_handler 0 (prv_init False) \<and>
   prv_select_click_handler 0 (the (prv_select_click_handler 0 (prv_init False))) =
     prv_select_click_handler 0 (prv_init False)"
proof -
  have go: "s_game_over (prv_init False)" by (simp add: prv_init_eq)
  let ?g1 = "the (prv_select_click_handler 0 (prv_init False))"
  have g1: "prv_select_click_handler 0 (prv_init False) = Some ?g1"
    by (simp add: select_restart_eq [OF go])
  have sh: "s_showing ?g1 \<and> \<not> s_game_over ?g1"
    by (simp add: select_restart_eq [OF go])
  show ?thesis
    using ignored_press_changes_nothing [of "prv_init False" 0]
      ignored_press_changes_nothing [of ?g1 0] go g1 sh
    by simp
qed

lemma dec_int_1: "dec_int 1 = ''1''"
  by code_simp

text \<open>
  C6. After \<open>prv_init\<close> the sequence length is 0, the round is 0, the game is over,
  nothing is being shown and no timer is pending. In every state where the game is over,
  SELECT sets the length to 0, stores one random step in cell 0 and starts a round: the
  length is 1, the round is 1, the game is no longer over, the cursors are 0, the sequence
  is being shown with step 0 on display (its name as the message, its glyph highlighted when
  it is a button), the show phase is 1 and the one timer added is the playback timer of
  700 ms, whose handle is in the playback slot. With the array of 8 cells the step on display
  is the random step just stored.
\<close>

theorem fresh_session_and_restart:
  "s_seq_len (prv_init chalk) = 0 \<and> s_round (prv_init chalk) = 0 \<and>
   s_game_over (prv_init chalk) \<and> \<not> s_showing (prv_init chalk) \<and>
   \<not> s_transitioning (prv_init chalk) \<and> timers (prv_init chalk) = [] \<and>
   (s_game_over g \<longrightarrow>
      (\<exists>g'. prv_select_click_handler r g = Some g' \<and>
         s_sequence g' = (s_sequence g)[0 := int (r mod 3)] \<and>
         s_seq_len g' = 1 \<and> s_round g' = 1 \<and> s_showing g' \<and> \<not> s_game_over g' \<and>
         \<not> s_transitioning g' \<and> s_input_index g' = 0 \<and> s_show_index g' = 0 \<and>
         s_show_phase g' = 1 \<and> s_show_ms_current g' = 700 \<and>
         s_sequence_timer g' = Some (next_timer g) \<and>
         timers g' = timers g @ [Timer (next_timer g) 700 SequenceTimerCb] \<and>
         next_timer g' = Suc (next_timer g) \<and>
         effects g' = effects g @
           [InfoText ''Round: 1'', ShowMessage (button_name (seq_at g' 0))] @
           glyph_fx (seq_at g' 0) True @ [ApplyLayout False 28, ApplyLayout False 28] \<and>
         (length (s_sequence g) = 8 \<longrightarrow>
            seq_at g' 0 = int (r mod 3) \<and>
            glyph_fx (seq_at g' 0) True = [Highlight (int (r mod 3)) True])))"
proof -
  have ms: "calc_show_ms 1 = 700"
    by (simp add: calc_show_ms_def SHOW_MS_def)
  have v: "glyph_fx (int (r mod 3)) True = [Highlight (int (r mod 3)) True]"
    by (simp add: glyph_fx_def)
  show ?thesis
    by (simp add: prv_init_eq static_init_def select_restart_eq dec_int_1 ms seq_at_def v)
qed

theorem fresh_session_and_restart_witness:
  "s_game_over (prv_init False) \<and>
   s_seq_len (the (prv_select_click_handler 5 (prv_init False))) = 1 \<and>
   s_round (the (prv_select_click_handler 5 (prv_init False))) = 1 \<and>
   s_showing (the (prv_select_click_handler 5 (prv_init False))) \<and>
   s_show_phase (the (prv_select_click_handler 5 (prv_init False))) = 1 \<and>
   s_sequence (the (prv_select_click_handler 5 (prv_init False))) = [2, 0, 0, 0, 0, 0, 0, 0] \<and>
   s_sequence_timer (the (prv_select_click_handler 5 (prv_init False))) = Some 0 \<and>
   timers (the (prv_select_click_handler 5 (prv_init False))) = [Timer 0 700 SequenceTimerCb] \<and>
   drop 7 (effects (the (prv_select_click_handler 5 (prv_init False)))) =
     [InfoText ''Round: 1'', ShowMessage ''Down'', Highlight 2 True,
      ApplyLayout False 28, ApplyLayout False 28]"
proof -
  have go: "s_game_over (prv_init False)" by (simp add: prv_init_eq)
  have sq: "s_sequence (prv_init False) = [0, 0, 0, 0, 0, 0, 0, 0]"
    by (simp add: prv_init_eq static_init_def)
  have nt: "next_timer (prv_init False) = 0" "timers (prv_init False) = []"
    by (simp_all add: prv_init_eq static_init_def)
  have fx: "length (effects (prv_init False)) = 7"
    by (simp add: prv_init_eq)
  have bn: "button_name 2 = ''Down''"
    by (simp add: button_name_def SEQ_BTN_UP_def SEQ_BTN_SELECT_def SEQ_BTN_DOWN_def)
  show ?thesis
    using fresh_session_and_restart [of False "prv_init False" 5] go sq nt fx bn
    by auto
qed

text \<open>
  C2. In a state that accepts input, a press that differs from the expected step
  \<open>s_sequence[s_input_index]\<close> ends the game: the game-over flag is set, the showing flag
  is cleared, the playback timer held in \<open>s_sequence_timer\<close> is cancelled and the slot
  emptied, so that no playback timer is pending, and ``Game Over'' is shown after a long
  pulse. Sequence, length, both cursors, round and the transition flag keep their values.
\<close>

theorem wrong_press_ends_game:
  assumes "accepting_input g" "0 \<le> s_input_index g" "s_seq_len g \<le> 8" "tracked g"
    "p \<noteq> seq_at g (s_input_index g)"
  shows "\<exists>g'. handle_input p r g = Some g' \<and>
    s_game_over g' \<and> \<not> s_showing g' \<and>
    s_sequence_timer g' = None \<and> pending Playback g' = [] \<and>
    (\<forall>h. s_sequence_timer g = Some h \<longrightarrow> h \<notin> t_id ` set (timers g')) \<and>
    effects g' = effects g @ glyph_fx p True @
      [Vibes LongPulse, InfoText (info_text (g\<lparr>s_game_over := True\<rparr>)),
       ShowMessage ''Game Over'', layout_fx (g\<lparr>s_game_over := True\<rparr>)] \<and>
    s_sequence g' = s_sequence g \<and> s_seq_len g' = s_seq_len g \<and>
    s_input_index g' = s_input_index g \<and> s_show_index g' = s_show_index g \<and>
    s_round g' = s_round g \<and> s_transitioning g' = s_transitioning g"
proof -
  let ?ts = "uncancelled (s_feedback_timer g) (timers g) @
           [Timer (next_timer g) 150 (ClearGlyphCb p)]"
  have s: "slots_ok (next_timer g) (s_sequence_timer g) (s_feedback_timer g)
       (s_transition_timer g) (s_flash_timer g) (timers g)"
    using assms(4) by (simp add: tracked_def)
  have "slots_ok (Suc (next_timer g)) None (Some (next_timer g))
       (s_transition_timer g) (s_flash_timer g) (uncancelled (s_sequence_timer g) ?ts)"
    using s by simp
  then have "none_of Playback (uncancelled (s_sequence_timer g) ?ts)"
    by (simp add: slots_ok_def)
  then have 1: "filter (\<lambda>t. category_of (t_cb t) = Playback) (uncancelled (s_sequence_timer g) ?ts) = []"
    by (simp add: none_of_def filter_empty_conv)
  have 2: "\<forall>h. s_sequence_timer g = Some h \<longrightarrow> h \<notin> t_id ` set (uncancelled (s_sequence_timer g) ?ts)"
    by (auto simp: uncancelled_def)
  show ?thesis
    unfolding handle_input_wrong [OF assms(1,2,3,5)]
    using 1 2 by (simp add: pending_def)
qed

theorem wrong_press_ends_game_witness:
  "handle_input 1 0
     ((static_init False)\<lparr>s_seq_len := 2, s_input_index := 1, s_round := 2,
        s_sequence_timer := Some 0, timers := [Timer 0 300 SequenceTimerCb],
        next_timer := 1\<rparr>) \<noteq> None \<and>
   s_game_over (the (handle_input 1 0
     ((static_init False)\<lparr>s_seq_len := 2, s_input_index := 1, s_round := 2,
        s_sequence_timer := Some 0, timers := [Timer 0 300 SequenceTimerCb],
        next_timer := 1\<rparr>))) \<and>
   timers (the (handle_input 1 0
     ((static_init False)\<lparr>s_seq_len := 2, s_input_index := 1, s_round := 2,
        s_sequence_timer := Some 0, timers := [Timer 0 300 SequenceTimerCb],
        next_timer := 1\<rparr>))) = [Timer 1 150 (ClearGlyphCb 1)]"
proof -
  let ?g = "(static_init False)\<lparr>s_seq_len := 2, s_input_index := 1, s_round := 2,
        s_sequence_timer := Some 0, timers := [Timer 0 300 SequenceTimerCb],
        next_timer := 1\<rparr>"
  have a: "accepting_input ?g" "0 \<le> s_input_index ?g" "s_seq_len ?g \<le> 8"
    by (simp_all add: accepting_input_def static_init_def)
  have t: "tracked ?g"
    by (simp add: tracked_def slots_ok_def static_init_def fresh_def owned_def none_of_def)
  have p: "1 \<noteq> seq_at ?g (s_input_index ?g)"
    by (simp add: seq_at_def static_init_def)
  have e: "handle_input 1 0 ?g \<noteq> None \<and> s_game_over (the (handle_input 1 0 ?g))"
    using wrong_press_ends_game [OF a t p, of 0] by auto
  have "timers (the (handle_input 1 0 ?g)) = [Timer 1 150 (ClearGlyphCb 1)]"
    unfolding handle_input_wrong [OF a p]
    by (simp add: static_init_def uncancelled_def)
  with e show ?thesis by simp
qed

lemma none_of_pending: "none_of c ts \<Longrightarrow> filter (\<lambda>t. category_of (t_cb t) = c) ts = []"
  by (simp add: none_of_def filter_empty_conv)

lemma owned_pending:
  assumes "fresh n ts" "owned c s ts"
  shows "map t_id (filter (\<lambda>t. category_of (t_cb t) = c) ts) =
     (case s of None \<Rightarrow> [] | Some h \<Rightarrow> [h])"
proof (cases s)
  case None
  then show ?thesis using assms(2) by (simp add: none_of_pending)
next
  case (Some h)
  let ?xs = "filter (\<lambda>t. category_of (t_cb t) = c) ts"
  obtain t where t: "t \<in> set ?xs" "t_id t = h"
    using assms(2) Some by (auto simp: owned_def)
  have "length ?xs \<le> Suc 0" by (rule at_most_one [OF assms])
  then have "?xs = [t]" using t(1) by (cases ?xs) auto
  then show ?thesis using t(2) Some by simp
qed

lemma slots_pending:
  assumes "game_inv g"
  shows "map t_id (pending Playback g) = (case s_sequence_timer g of None \<Rightarrow> [] | Some h \<Rightarrow> [h])"
    "map t_id (pending GlyphFeedback g) = (case s_feedback_timer g of None \<Rightarrow> [] | Some h \<Rightarrow> [h])"
    "map t_id (pending Transition g) = (case s_transition_timer g of None \<Rightarrow> [] | Some h \<Rightarrow> [h])"
    "map t_id (pending Flash g) = (case s_flash_timer g of None \<Rightarrow> [] | Some h \<Rightarrow> [h])"
  using assms unfolding game_inv_def tracked_def slots_ok_def pending_def
  by (auto intro: owned_pending)

lemma game_over_frozen:
  assumes "game_inv g" "s_game_over g" "\<forall>r. e \<noteq> PressSelect r"
  shows "\<exists>g'. dispatch e g = Some g' \<and> session g' = session g \<and> game_inv g'"
proof (cases e)
  case (PressUp r)
  then show ?thesis using assms
    by (simp add: dispatch_def prv_up_click_handler_def handle_input_ignored)
next
  case (PressSelect r)
  then show ?thesis using assms by simp
next
  case (PressDown r)
  then show ?thesis using assms
    by (simp add: dispatch_def prv_down_click_handler_def handle_input_ignored)
next
  case (Fire h)
  from inv_fire [OF assms(1), of h] obtain g' where g': "fire h g = Some g'" "game_inv g'"
    by blast
  have "session g' = session g"
  proof (cases "find (\<lambda>t. t_id t = h) (timers g)")
    case None
    then show ?thesis using g' by (simp add: fire_def)
  next
    case (Some t)
    then have t: "t \<in> set (timers g)" "t_id t = h" by (auto dest: find_SomeD)
    have s: "slots_ok (next_timer g) (s_sequence_timer g) (s_feedback_timer g)
       (s_transition_timer g) (s_flash_timer g) (timers g)"
      using assms(1) by (simp add: game_inv_def tracked_def)
    note e = slots_expire [OF s t(1)]
    have "flags_ok g" using assms(1) by (simp add: game_inv_def)
    then have idle: "s_sequence_timer g = None" "s_transition_timer g = None"
      using assms(2) unfolding flags_ok_def by blast+
    show ?thesis
    proof (cases "t_cb t")
      case SequenceTimerCb
      then show ?thesis using e idle by simp
    next
      case (ClearGlyphCb i)
      then show ?thesis using g' Some t
        by (auto simp: fire_def run_callback_def clear_glyph_callback_eq session_def)
    next
      case ClearFeedbackCb
      then show ?thesis using g' Some t
        by (auto simp: fire_def run_callback_def clear_feedback_callback_eq session_def)
    next
      case RoundTransitionCb
      then show ?thesis using e idle by simp
    next
      case (FlashTickCb c)
      then show ?thesis using g' Some t
        by (auto simp: fire_def run_callback_def flash_animation_tick_eq session_def
            split: if_splits)
    qed
  qed
  then show ?thesis using g' Fire by (simp add: dispatch_def)
qed

lemma game_over_frozen_run:
  assumes "game_inv g" "s_game_over g" "\<forall>r. PressSelect r \<notin> set es"
  shows "\<exists>g'. run es g = Some g' \<and> session g' = session g"
  using assms
proof (induction es arbitrary: g)
  case Nil
  then show ?case by simp
next
  case (Cons e es)
  then have "\<forall>r. e \<noteq> PressSelect r" by auto
  from game_over_frozen [OF Cons.prems(1,2) this] obtain g1
    where g1: "dispatch e g = Some g1" "session g1 = session g" "game_inv g1" by blast
  then have "s_game_over g1" using Cons.prems(2) by (simp add: session_def)
  from Cons.IH [OF g1(3) this] Cons.prems(3) obtain g2
    where "run es g1 = Some g2" "session g2 = session g1" by auto
  then show ?case using g1 by simp
qed

lemma win_last_press:
  assumes "game_inv g" "accepting_input g" "s_seq_len g = 8" "s_input_index g = 7"
    "p = seq_at g 7"
  shows "\<exists>g'. handle_input p r g = Some g' \<and>
    s_game_over g' \<and> s_seq_len g' = 8 \<and> s_sequence g' = s_sequence g \<and>
    s_input_index g' = 8 \<and> \<not> s_showing g' \<and> \<not> s_transitioning g' \<and>
    effects g' = effects g @ glyph_fx p True @
      [Vibes ShortPulse, InfoText (info_text (g\<lparr>s_game_over := True\<rparr>)),
       ShowMessage ''You win!''] \<and>
    (\<forall>es. (\<forall>r'. PressSelect r' \<notin> set es) \<longrightarrow>
       (\<exists>g''. run es g' = Some g'' \<and> session g'' = session g')) \<and>
    (\<forall>r'. \<exists>g''. dispatch (PressSelect r') g' = Some g'' \<and>
       \<not> s_game_over g'' \<and> s_seq_len g'' = 1 \<and> s_showing g'')"
proof -
  from inv_handle_input [OF assms(1), of p r] obtain g'
    where g': "handle_input p r g = Some g'" "game_inv g'" by blast
  have w: "handle_input p r g = Some (g\<lparr>seq_reads := seq_reads g @ replicate 2 (s_input_index g, s_seq_len g),
       effects := effects g @ glyph_fx p True @
         [Vibes ShortPulse, InfoText (info_text (g\<lparr>s_game_over := True\<rparr>)),
          ShowMessage ''You win!''],
       timers := uncancelled (s_feedback_timer g) (timers g) @
           [Timer (next_timer g) 150 (ClearGlyphCb p)],
       next_timer := Suc (next_timer g),
       s_feedback_timer := Some (next_timer g),
       s_input_index := s_input_index g + 1,
       s_game_over := True\<rparr>)"
    using assms by (intro handle_input_win) simp_all
  have go: "s_game_over g'" using g'(1) w by auto
  have frozen: "\<forall>es. (\<forall>r'. PressSelect r' \<notin> set es) \<longrightarrow>
       (\<exists>g''. run es g' = Some g'' \<and> session g'' = session g')"
    using game_over_frozen_run [OF g'(2) go] by blast
  have restart: "\<forall>r'. \<exists>g''. dispatch (PressSelect r') g' = Some g'' \<and>
       \<not> s_game_over g'' \<and> s_seq_len g'' = 1 \<and> s_showing g''"
    by (simp add: dispatch_def select_restart_eq [OF go])
  have "s_seq_len g' = 8 \<and> s_sequence g' = s_sequence g \<and>
    s_input_index g' = 8 \<and> \<not> s_showing g' \<and> \<not> s_transitioning g' \<and>
    effects g' = effects g @ glyph_fx p True @
      [Vibes ShortPulse, InfoText (info_text (g\<lparr>s_game_over := True\<rparr>)),
       ShowMessage ''You win!'']"
    using g'(1) w assms by (auto simp: accepting_input_def)
  then show ?thesis using g'(1) go frozen restart by blast
qed

lemma fresh_mono: "fresh n ts \<Longrightarrow> n \<le> m \<Longrightarrow> fresh m ts"
  by (auto simp: fresh_def)

lemma fresh_uncancelled_new:
  "fresh n ts \<Longrightarrow> uncancelled (Some n) (ts @ [Timer n ms cb]) = ts"
  using fresh_filter_new [of n ts ms cb] by (simp add: uncancelled_def)

lemma transition_frozen:
  assumes "game_inv g" "s_transition_timer g = Some h" "e \<noteq> Fire h"
  shows "\<exists>g'. dispatch e g = Some g' \<and> session g' = session g \<and>
    s_transition_timer g' = Some h \<and> game_inv g'"
proof -
  have "flags_ok g" using assms(1) by (simp add: game_inv_def)
  then have fl: "s_transitioning g" "\<not> s_showing g" "\<not> s_game_over g" "s_sequence_timer g = None"
    using assms(2) unfolding flags_ok_def by auto
  show ?thesis
  proof (cases e)
    case (PressUp r)
    then show ?thesis using assms fl
      by (simp add: dispatch_def prv_up_click_handler_def handle_input_ignored)
  next
    case (PressSelect r)
    then show ?thesis using assms fl
      by (simp add: dispatch_def select_forward handle_input_ignored)
  next
    case (PressDown r)
    then show ?thesis using assms fl
      by (simp add: dispatch_def prv_down_click_handler_def handle_input_ignored)
  next
    case (Fire k)
    then have ne: "k \<noteq> h" using assms(3) by simp
    from inv_fire [OF assms(1), of k] obtain g' where g': "fire k g = Some g'" "game_inv g'"
      by blast
    have "session g' = session g \<and> s_transition_timer g' = Some h"
    proof (cases "find (\<lambda>t. t_id t = k) (timers g)")
      case None
      then show ?thesis using g' assms(2) by (simp add: fire_def)
    next
      case (Some t)
      then have t: "t \<in> set (timers g)" "t_id t = k" by (auto dest: find_SomeD)
      have s: "slots_ok (next_timer g) (s_sequence_timer g) (s_feedback_timer g)
         (s_transition_timer g) (s_flash_timer g) (timers g)"
        using assms(1) by (simp add: game_inv_def tracked_def)
      note x = slots_expire [OF s t(1)]
      show ?thesis
      proof (cases "t_cb t")
        case SequenceTimerCb
        then show ?thesis using x fl by simp
      next
        case (ClearGlyphCb i)
        then show ?thesis using g' Some t assms(2)
          by (auto simp: fire_def run_callback_def clear_glyph_callback_eq session_def)
      next
        case ClearFeedbackCb
        then show ?thesis using g' Some t assms(2)
          by (auto simp: fire_def run_callback_def clear_feedback_callback_eq session_def)
      next
        case RoundTransitionCb
        then show ?thesis using x assms(2) t(2) ne by simp
      next
        case (FlashTickCb c)
        then show ?thesis using g' Some t assms(2)
          by (auto simp: fire_def run_callback_def flash_animation_tick_eq session_def
              split: if_splits)
      qed
    qed
    then show ?thesis using g' Fire by (simp add: dispatch_def)
  qed
qed

lemma transition_frozen_run:
  assumes "game_inv g" "s_transition_timer g = Some h" "Fire h \<notin> set es"
  shows "\<exists>g'. run es g = Some g' \<and> session g' = session g \<and>
    s_transition_timer g' = Some h \<and> game_inv g'"
  using assms
proof (induction es arbitrary: g)
  case Nil
  then show ?case by simp
next
  case (Cons e es)
  then have "e \<noteq> Fire h" by auto
  from transition_frozen [OF Cons.prems(1,2) this] obtain g1
    where g1: "dispatch e g = Some g1" "session g1 = session g"
      "s_transition_timer g1 = Some h" "game_inv g1" by blast
  from Cons.IH [OF g1(4,3)] Cons.prems(3) obtain g2
    where "run es g1 = Some g2" "session g2 = session g1"
      "s_transition_timer g2 = Some h" "game_inv g2" by auto
  then show ?case using g1 by simp
qed

lemma transition_fires:
  assumes "game_inv g" "s_transition_timer g = Some h" "0 < s_seq_len g"
  shows "\<exists>g'. fire h g = Some g' \<and>
    pending Flash g' = [] \<and> s_flash_timer g' = None \<and> s_flash_phase g' = 0 \<and>
    pending Transition g' = [] \<and> s_transition_timer g' = None \<and>
    \<not> s_transitioning g' \<and> s_showing g' \<and> \<not> s_game_over g' \<and>
    s_sequence g' = s_sequence g \<and> s_seq_len g' = s_seq_len g \<and>
    s_round g' = s_seq_len g \<and> s_input_index g' = 0 \<and> s_show_index g' = 0 \<and>
    s_show_phase g' = 1 \<and> s_show_ms_current g' = calc_show_ms (s_seq_len g) \<and>
    s_sequence_timer g' = Some (next_timer g) \<and>
    pending Playback g' =
      [Timer (next_timer g) (calc_show_ms (s_seq_len g)) SequenceTimerCb] \<and>
    effects g' = effects g @
      [FlashDirty, InfoText (''Round: '' @ dec_int (s_seq_len g)),
       ShowMessage (button_name (seq_at g 0))] @
      glyph_fx (seq_at g 0) True @ [ApplyLayout False 28]"
proof -
  have s: "slots_ok (next_timer g) (s_sequence_timer g) (s_feedback_timer g)
       (s_transition_timer g) (s_flash_timer g) (timers g)"
    using assms(1) by (simp add: game_inv_def tracked_def)
  then have "owned Transition (Some h) (timers g)"
    using assms(2) by (simp add: slots_ok_def)
  then obtain t where t: "t \<in> set (timers g)" "t_id t = h" "category_of (t_cb t) = Transition"
    by (auto simp: owned_def)
  then have cb: "t_cb t = RoundTransitionCb" by (cases "t_cb t") simp_all
  have "flags_ok g" using assms(1) by (simp add: game_inv_def)
  then have n: "s_sequence_timer g = None"
    using assms(2) unfolding flags_ok_def by auto
  define X where "X = uncancelled (s_flash_timer g)
     (filter (\<lambda>u. t_id u \<noteq> h) (timers g))"
  have "slots_ok (next_timer g) None (s_feedback_timer g) None (s_flash_timer g)
      (filter (\<lambda>u. t_id u \<noteq> h) (timers g))"
    using slots_expire [OF s t(1)] t(2,3) n by simp
  then have "slots_ok (next_timer g) None (s_feedback_timer g) None None X"
    unfolding X_def by simp
  then have X: "none_of Playback X" "none_of Transition X" "none_of Flash X"
    by (simp_all add: slots_ok_def)
  have "find (\<lambda>u. t_id u = t_id t) (timers g) = Some t"
    using s t(1) by (intro find_distinct) (simp_all add: slots_ok_def fresh_def)
  then have f: "fire h g =
     begin_round (g\<lparr>timers := filter (\<lambda>u. t_id u \<noteq> h) (timers g),
       s_transition_timer := None, timers := X, s_flash_timer := None, s_flash_phase := 0,
       effects := effects g @ [FlashDirty]\<rparr>)"
    using t(2) by (simp add: fire_def cb run_callback_def round_transition_callback_eq X_def)
  have len: "s_seq_len g \<le> 8"
    using assms(1) by (simp add: inv_defs MAX_SEQUENCE_def)
  define g' where "g' = the (fire h g)"
  have r: "fire h g = Some g'"
    unfolding g'_def f using assms(3) len by (simp add: begin_round_eq)
  have after: "pending Flash g' = []" "s_flash_timer g' = None" "s_flash_phase g' = 0"
    "pending Transition g' = []" "s_transition_timer g' = None"
    "\<not> s_transitioning g'" "s_showing g'" "\<not> s_game_over g'"
    "s_sequence g' = s_sequence g" "s_seq_len g' = s_seq_len g"
    "s_round g' = s_seq_len g" "s_input_index g' = 0" "s_show_index g' = 0"
    "s_show_phase g' = 1" "s_show_ms_current g' = calc_show_ms (s_seq_len g)"
    "s_sequence_timer g' = Some (next_timer g)"
    "pending Playback g' =
      [Timer (next_timer g) (calc_show_ms (s_seq_len g)) SequenceTimerCb]"
    "effects g' = effects g @
      [FlashDirty, InfoText (''Round: '' @ dec_int (s_seq_len g)),
       ShowMessage (button_name (seq_at g 0))] @
      glyph_fx (seq_at g 0) True @ [ApplyLayout False 28]"
    unfolding g'_def f using assms(3) len X
    by (simp_all add: begin_round_eq pending_def none_of_pending seq_at_def)
  show ?thesis
    using r after by (intro exI [of _ g']) simp
qed


lemma complete_last_press:
  assumes "game_inv g" "accepting_input g" "s_input_index g + 1 = s_seq_len g"
    "s_seq_len g < 8" "p = seq_at g (s_input_index g)"
  shows "\<exists>g'. handle_input p r g = Some g' \<and>
    s_seq_len g' = s_seq_len g + 1 \<and>
    s_sequence g' = (s_sequence g)[nat (s_seq_len g) := int (r mod 3)] \<and>
    s_round g' = s_seq_len g + 1 \<and>
    s_transitioning g' \<and> \<not> s_showing g' \<and> \<not> s_game_over g' \<and>
    effects g' = effects g @ glyph_fx p True @
      [Vibes ShortPulse, InfoText (''Round: '' @ dec_int (s_seq_len g + 1)),
       Vibes DoublePulse] @
      (if s_seq_len g + 1 = 4 \<or> s_seq_len g + 1 = 6 then [Vibes ShortPulse]
       else if s_seq_len g + 1 = 8 then [Vibes LongPulse] else []) @
      [ShowMessage (''Length '' @ dec_int (s_seq_len g + 1)), FlashDirty] \<and>
    s_flash_phase g' = 0 \<and>
    s_flash_timer g' = Some (Suc (next_timer g)) \<and>
    pending Flash g' =
      [Timer (Suc (next_timer g)) (if platform_chalk g then 180 else 140)
         (FlashTickCb (if s_seq_len g + 1 = 4 \<or> s_seq_len g + 1 = 6 then 5
                       else if s_seq_len g + 1 = 8 then 7 else 3))] \<and>
    s_transition_timer g' = Some (Suc (Suc (next_timer g))) \<and>
    pending Transition g' =
      [Timer (Suc (Suc (next_timer g)))
         (150 * (if s_seq_len g + 1 = 4 \<or> s_seq_len g + 1 = 6 then 5
                 else if s_seq_len g + 1 = 8 then 7 else 3) + 200)
         RoundTransitionCb] \<and>
    (\<forall>es. Fire (Suc (Suc (next_timer g))) \<notin> set es \<longrightarrow>
       (\<exists>g2 g''. run es g' = Some g2 \<and> session g2 = session g' \<and>
          s_transition_timer g2 = Some (Suc (Suc (next_timer g))) \<and>
          map t_id (pending Transition g2) = [Suc (Suc (next_timer g))] \<and>
          fire (Suc (Suc (next_timer g))) g2 = Some g'' \<and>
          pending Flash g'' = [] \<and> s_flash_timer g'' = None \<and> s_flash_phase g'' = 0 \<and>
          pending Transition g'' = [] \<and> s_transition_timer g'' = None \<and>
          \<not> s_transitioning g'' \<and> s_showing g'' \<and> \<not> s_game_over g'' \<and>
          s_sequence g'' = s_sequence g' \<and> s_seq_len g'' = s_seq_len g + 1 \<and>
          s_round g'' = s_seq_len g + 1 \<and> s_input_index g'' = 0 \<and> s_show_index g'' = 0 \<and>
          s_show_phase g'' = 1 \<and>
          s_show_ms_current g'' = calc_show_ms (s_seq_len g + 1) \<and>
          s_sequence_timer g'' = Some (next_timer g2) \<and>
          pending Playback g'' =
            [Timer (next_timer g2) (calc_show_ms (s_seq_len g + 1)) SequenceTimerCb]))"
proof -
  define n where "n = next_timer g"
  define L where "L = s_seq_len g"
  define G where "G = Timer n 150 (ClearGlyphCb p)"
  define F where "F = Timer (Suc n) (if platform_chalk g then 180 else 140)
         (FlashTickCb (flash_cycles (L + 1)))"
  define T where "T = Timer (Suc (Suc n)) (150 * flash_cycles (L + 1) + 200) RoundTransitionCb"
  define X where "X = uncancelled (s_flash_timer g)
     (uncancelled (s_feedback_timer g) (timers g) @ [G])"
  have b: "0 \<le> s_input_index g" "0 \<le> L" "0 < L + 1" "L + 1 \<le> 8"
    using assms by (simp_all add: inv_defs L_def)
  have "flags_ok g" using assms(1) by (simp add: game_inv_def)
  then have idle: "s_sequence_timer g = None" "s_transition_timer g = None"
    using assms(2) unfolding flags_ok_def accepting_input_def by blast+
  have s: "slots_ok n None (s_feedback_timer g) None (s_flash_timer g) (timers g)"
    using assms(1) idle by (simp add: game_inv_def tracked_def n_def)
  have sX: "slots_ok (Suc n) None (Some n) None None X"
    unfolding X_def G_def using s by simp
  then have X: "fresh (Suc n) X" "none_of Flash X" "none_of Transition X"
    by (simp_all add: slots_ok_def)
  define g' where "g' = the (handle_input p r g)"
  have hi: "handle_input p r g = Some g'"
    unfolding g'_def handle_input_complete [OF assms(2) b(1) assms(5,3,4)] by simp
  have inv': "game_inv g'"
    using inv_handle_input [OF assms(1), of p r] hi by simp
  have tg': "timers g' = X @ [F, T]"
    unfolding g'_def handle_input_complete [OF assms(2) b(1) assms(5,3,4)]
      start_round_transition_eq
    by (simp add: idle X_def G_def F_def T_def n_def L_def)
  have fields: "s_seq_len g' = L + 1"
    "s_sequence g' = (s_sequence g)[nat L := int (r mod 3)]"
    "s_round g' = L + 1" "s_transitioning g'" "\<not> s_showing g'" "\<not> s_game_over g'"
    "effects g' = effects g @ glyph_fx p True @
      [Vibes ShortPulse, InfoText (''Round: '' @ dec_int (L + 1)), Vibes DoublePulse] @
      milestone_fx (L + 1) @ [ShowMessage (''Length '' @ dec_int (L + 1)), FlashDirty]"
    "s_flash_phase g' = 0" "s_flash_timer g' = Some (Suc n)"
    "s_transition_timer g' = Some (Suc (Suc n))" "next_timer g' = Suc (Suc (Suc n))"
    unfolding g'_def handle_input_complete [OF assms(2) b(1) assms(5,3,4)]
      start_round_transition_eq
    using assms(2) by (simp_all add: n_def L_def accepting_input_def)
  have pF: "pending Flash g' = [F]"
    using X(2) by (simp add: pending_def tg' none_of_pending F_def T_def)
  have pT: "pending Transition g' = [T]"
    using X(3) by (simp add: pending_def tg' none_of_pending F_def T_def)
  have later: "\<exists>g2 g''. run es g' = Some g2 \<and> session g2 = session g' \<and>
          s_transition_timer g2 = Some (Suc (Suc n)) \<and>
          map t_id (pending Transition g2) = [Suc (Suc n)] \<and>
          fire (Suc (Suc n)) g2 = Some g'' \<and>
          pending Flash g'' = [] \<and> s_flash_timer g'' = None \<and> s_flash_phase g'' = 0 \<and>
          pending Transition g'' = [] \<and> s_transition_timer g'' = None \<and>
          \<not> s_transitioning g'' \<and> s_showing g'' \<and> \<not> s_game_over g'' \<and>
          s_sequence g'' = s_sequence g' \<and> s_seq_len g'' = L + 1 \<and>
          s_round g'' = L + 1 \<and> s_input_index g'' = 0 \<and> s_show_index g'' = 0 \<and>
          s_show_phase g'' = 1 \<and>
          s_show_ms_current g'' = calc_show_ms (L + 1) \<and>
          s_sequence_timer g'' = Some (next_timer g2) \<and>
          pending Playback g'' =
            [Timer (next_timer g2) (calc_show_ms (L + 1)) SequenceTimerCb]"
    if es: "Fire (Suc (Suc n)) \<notin> set es" for es
  proof -
    from transition_frozen_run [OF inv' fields(10) es] obtain g2
      where g2: "run es g' = Some g2" "session g2 = session g'"
        "s_transition_timer g2 = Some (Suc (Suc n))" "game_inv g2"
      by blast
    have same: "s_seq_len g2 = L + 1" "s_sequence g2 = s_sequence g'"
      using g2(2) fields(1) by (simp_all add: session_def)
    have pos: "0 < s_seq_len g2" using same(1) b(3) by simp
    have one: "map t_id (pending Transition g2) = [Suc (Suc n)]"
      using slots_pending(3) [OF g2(4)] g2(3) by simp
    note f = transition_fires [OF g2(4,3) pos, unfolded same]
    show ?thesis
      using f g2(1,2,3) one
      by (elim exE conjE) (intro exI conjI; assumption)
  qed
  show ?thesis
    using hi fields pF pT later
    unfolding F_def T_def n_def L_def
    by (intro exI [of _ g']) (simp add: flash_cycles_def milestone_fx_def)
qed

lemma bounds_reads_sequence_timer_callback:
  assumes "bounds_ok g" "reads_ok g"
  shows "\<exists>g'. sequence_timer_callback g = Some g' \<and> bounds_ok g' \<and> reads_ok g'"
proof -
  consider (idle) "\<not> s_showing g"
    | (finish) "s_showing g" "s_seq_len g \<le> s_show_index g"
    | (display) "s_showing g" "s_show_index g < s_seq_len g" "s_show_phase g = 0"
    | (pause) "s_showing g" "s_show_index g < s_seq_len g" "s_show_phase g \<noteq> 0"
    by linarith
  then show ?thesis
  proof cases
    case idle
    then show ?thesis using assms
      by (simp add: sequence_timer_callback_idle bounds_ok_def reads_ok_def)
  next
    case finish
    then show ?thesis using assms
      by (simp add: sequence_timer_callback_finish bounds_ok_def reads_ok_def)
  next
    case display
    then show ?thesis using assms
      by (simp add: sequence_timer_callback_display bounds_ok_def reads_ok_def MAX_SEQUENCE_def)
  next
    case pause
    then show ?thesis using assms
      by (simp add: sequence_timer_callback_pause bounds_ok_def reads_ok_def MAX_SEQUENCE_def)
  qed
qed

lemma bounds_reads_begin_round:
  assumes "bounds_ok g" "reads_ok g"
  shows "\<exists>g'. begin_round g = Some g' \<and> bounds_ok g' \<and> reads_ok g'"
proof (cases "s_seq_len g = 0")
  case True
  then show ?thesis using assms
    by (simp add: begin_round_empty bounds_ok_def reads_ok_def MAX_SEQUENCE_def)
next
  case False
  then show ?thesis using assms
    by (simp add: begin_round_eq bounds_ok_def reads_ok_def MAX_SEQUENCE_def)
qed

lemma bounds_reads_handle_input:
  assumes "bounds_ok g" "reads_ok g"
  shows "\<exists>g'. handle_input p r g = Some g' \<and> bounds_ok g' \<and> reads_ok g'"
proof (cases "accepting_input g")
  case False
  then have "handle_input p r g = Some g"
    by (intro handle_input_ignored) (auto simp: accepting_input_def)
  then show ?thesis using assms by simp
next
  case True
  have b: "0 \<le> s_input_index g" "s_seq_len g \<le> 8"
    using assms by (simp_all add: bounds_ok_def MAX_SEQUENCE_def)
  consider (wrong) "p \<noteq> seq_at g (s_input_index g)"
    | (good) "p = seq_at g (s_input_index g)" "s_input_index g + 1 \<noteq> s_seq_len g"
    | (win) "p = seq_at g (s_input_index g)" "s_input_index g + 1 = s_seq_len g" "8 \<le> s_seq_len g"
    | (complete) "p = seq_at g (s_input_index g)" "s_input_index g + 1 = s_seq_len g" "s_seq_len g < 8"
    by linarith
  then show ?thesis
  proof cases
    case wrong
    show ?thesis
      unfolding handle_input_wrong [OF True b wrong]
      using assms True by (simp add: bounds_ok_def reads_ok_def accepting_input_def MAX_SEQUENCE_def)
  next
    case good
    show ?thesis
      unfolding handle_input_good [OF True b good]
      using assms True good
      by (simp add: bounds_ok_def reads_ok_def accepting_input_def MAX_SEQUENCE_def)
  next
    case win
    show ?thesis
      unfolding handle_input_win [OF True b win]
      using assms True win
      by (simp add: bounds_ok_def reads_ok_def accepting_input_def MAX_SEQUENCE_def)
  next
    case complete
    show ?thesis
      unfolding handle_input_complete [OF True b(1) complete] start_round_transition_eq
      using assms True complete
      by (simp add: bounds_ok_def reads_ok_def accepting_input_def MAX_SEQUENCE_def)
  qed
qed

text \<open>
  C9. From \<open>prv_init\<close> every sequence of events runs without an access outside the array.
  In every state so reached the input cursor and the show cursor lie between 0 and the
  sequence length, the length is at most 8, and every read of \<open>s_sequence\<close> made so far
  used an index from 0 up to, and not including, the length at the moment of the read.
  \<open>begin_round\<close>, \<open>handle_input\<close> and \<open>sequence_timer_callback\<close> each return, and keep
  the cursor bounds and the bound on the reads.
\<close>

theorem cursors_stay_within_length:
  "(\<exists>g. run es (prv_init chalk) = Some g) \<and>
   (\<forall>g. run es (prv_init chalk) = Some g \<longrightarrow>
      0 \<le> s_input_index g \<and> s_input_index g \<le> s_seq_len g \<and>
      0 \<le> s_show_index g \<and> s_show_index g \<le> s_seq_len g \<and> s_seq_len g \<le> 8 \<and>
      (\<forall>(i, n) \<in> set (seq_reads g). 0 \<le> i \<and> i < n \<and> n \<le> 8)) \<and>
   (bounds_ok s \<and> reads_ok s \<longrightarrow>
      (\<exists>s'. begin_round s = Some s' \<and> bounds_ok s' \<and> reads_ok s') \<and>
      (\<exists>s'. handle_input p r s = Some s' \<and> bounds_ok s' \<and> reads_ok s') \<and>
      (\<exists>s'. sequence_timer_callback s = Some s' \<and> bounds_ok s' \<and> reads_ok s'))"
proof -
  have 1: "\<exists>g. run es (prv_init chalk) = Some g"
    using inv_run [OF inv_prv_init, of es chalk] by blast
  have 2: "\<forall>g. run es (prv_init chalk) = Some g \<longrightarrow>
      0 \<le> s_input_index g \<and> s_input_index g \<le> s_seq_len g \<and>
      0 \<le> s_show_index g \<and> s_show_index g \<le> s_seq_len g \<and> s_seq_len g \<le> 8 \<and>
      (\<forall>(i, n) \<in> set (seq_reads g). 0 \<le> i \<and> i < n \<and> n \<le> 8)"
  proof (intro allI impI)
    fix g assume "run es (prv_init chalk) = Some g"
    then have "game_inv g" by (rule inv_reachable)
    then show "0 \<le> s_input_index g \<and> s_input_index g \<le> s_seq_len g \<and>
      0 \<le> s_show_index g \<and> s_show_index g \<le> s_seq_len g \<and> s_seq_len g \<le> 8 \<and>
      (\<forall>(i, n) \<in> set (seq_reads g). 0 \<le> i \<and> i < n \<and> n \<le> 8)"
      by (simp add: game_inv_def bounds_ok_def reads_ok_def MAX_SEQUENCE_def)
  qed
  show ?thesis
    using 1 2 bounds_reads_begin_round [of s] bounds_reads_handle_input [of s p r]
      bounds_reads_sequence_timer_callback [of s]
    by blast
qed

theorem cursors_stay_within_length_witness:
  "run [PressSelect 4, Fire 0] (prv_init False) \<noteq> None \<and>
   s_show_index (the (run [PressSelect 4, Fire 0] (prv_init False))) = 1 \<and>
   s_seq_len (the (run [PressSelect 4, Fire 0] (prv_init False))) = 1 \<and>
   seq_reads (the (run [PressSelect 4, Fire 0] (prv_init False))) = [(0, 1), (0, 1), (0, 1)] \<and>
   bounds_ok (prv_init False) \<and> reads_ok (prv_init False) \<and>
   begin_round (prv_init False) \<noteq> None \<and>
   handle_input 0 0 (prv_init False) \<noteq> None \<and>
   sequence_timer_callback (prv_init False) \<noteq> None"
proof -
  have i: "bounds_ok (prv_init False) \<and> reads_ok (prv_init False)"
    using inv_prv_init [of False] by (simp add: game_inv_def)
  have v: "s_show_index (the (run [PressSelect 4, Fire 0] (prv_init False))) = 1 \<and>
   s_seq_len (the (run [PressSelect 4, Fire 0] (prv_init False))) = 1 \<and>
   seq_reads (the (run [PressSelect 4, Fire 0] (prv_init False))) = [(0, 1), (0, 1), (0, 1)]"
    by code_simp
  show ?thesis
    using cursors_stay_within_length [of "[PressSelect 4, Fire 0]" False "prv_init False" 0 0] i v
    by auto
qed

text \<open>
  The four handle slots. In every state reached from \<open>prv_init\<close>, each slot owns its
  category: the pending timers of the category are exactly the timer whose handle the slot
  holds, or none when the slot is empty. So at most one playback timer, one glyph feedback
  timer, one transition timer and one flash timer is pending. Five of the six
  registrations of the program store the handle in such a slot.
\<close>

lemma one_pending_timer_per_slot:
  assumes "run es (prv_init chalk) = Some g"
  shows "map t_id (pending Playback g) =
      (case s_sequence_timer g of None \<Rightarrow> [] | Some h \<Rightarrow> [h]) \<and>
    map t_id (pending GlyphFeedback g) =
      (case s_feedback_timer g of None \<Rightarrow> [] | Some h \<Rightarrow> [h]) \<and>
    map t_id (pending Transition g) =
      (case s_transition_timer g of None \<Rightarrow> [] | Some h \<Rightarrow> [h]) \<and>
    map t_id (pending Flash g) =
      (case s_flash_timer g of None \<Rightarrow> [] | Some h \<Rightarrow> [h]) \<and>
    length (pending Playback g) \<le> 1 \<and> length (pending GlyphFeedback g) \<le> 1 \<and>
    length (pending Transition g) \<le> 1 \<and> length (pending Flash g) \<le> 1"
proof -
  have inv: "game_inv g" using assms by (rule inv_reachable)
  note p = slots_pending [OF inv]
  have "length (pending Playback g) \<le> 1"
    using arg_cong [OF p(1), of length] by (simp split: option.splits)
  moreover have "length (pending GlyphFeedback g) \<le> 1"
    using arg_cong [OF p(2), of length] by (simp split: option.splits)
  moreover have "length (pending Transition g) \<le> 1"
    using arg_cong [OF p(3), of length] by (simp split: option.splits)
  moreover have "length (pending Flash g) \<le> 1"
    using arg_cong [OF p(4), of length] by (simp split: option.splits)
  ultimately show ?thesis using p by simp
qed

lemma one_pending_timer_per_slot_example:
  "run [PressSelect 0, Fire 0, Fire 1, PressUp 0] (prv_init False) \<noteq> None \<and>
   map t_id (timers (the (run [PressSelect 0, Fire 0, Fire 1, PressUp 0] (prv_init False))))
     = [2, 3, 4] \<and>
   map t_id (pending GlyphFeedback
     (the (run [PressSelect 0, Fire 0, Fire 1, PressUp 0] (prv_init False)))) = [2] \<and>
   map t_id (pending Flash
     (the (run [PressSelect 0, Fire 0, Fire 1, PressUp 0] (prv_init False)))) = [3] \<and>
   map t_id (pending Transition
     (the (run [PressSelect 0, Fire 0, Fire 1, PressUp 0] (prv_init False)))) = [4] \<and>
   length (pending Playback
     (the (run [PressSelect 0, Fire 0, Fire 1, PressUp 0] (prv_init False)))) \<le> 1"
proof -
  let ?es = "[PressSelect 0, Fire 0, Fire 1, PressUp 0]"
  obtain g where g: "run ?es (prv_init False) = Some g"
    using inv_run [OF inv_prv_init, of ?es False] by blast
  have v: "map t_id (timers (the (run ?es (prv_init False)))) = [2, 3, 4] \<and>
    s_feedback_timer (the (run ?es (prv_init False))) = Some 2 \<and>
    s_flash_timer (the (run ?es (prv_init False))) = Some 3 \<and>
    s_transition_timer (the (run ?es (prv_init False))) = Some 4"
    by code_simp
  show ?thesis
    using one_pending_timer_per_slot [OF g] g v by simp
qed

text \<open>
  C8. At most one timer of each category should be pending at any time, every registration
  cancelling the pending timer of its category first. The registration of the 200 ms timer
  that restores the prompt after ``Good'' (\<open>handle_input\<close>, line 359) does not: it keeps no
  handle and cancels nothing, while the 150 ms glyph timer registered in the same function
  is cancelled through \<open>s_feedback_timer\<close> before it is registered again.

  Both runs below start from \<open>prv_init\<close> and play with every step UP. In the first, two
  rounds are played and UP is pressed twice in the round of length 3: two timers of the
  category are pending together. In the second, one round is played, then in the round of
  length 2 UP is pressed (correct) and DOWN (wrong): the game is over and ``Game Over'' is
  shown, with the 200 ms timer of the correct press still pending; when it fires, it puts
  ``Your turn'' over ``Game Over'' although the game stays over.
\<close>

theorem acknowledge_timer_never_cancelled:
  "map_option (pending Acknowledge)
     (run [PressSelect 0, Fire 0, Fire 1,
           PressUp 0, Fire 3, Fire 2, Fire 5, Fire 6, Fire 4,
           Fire 7, Fire 8, Fire 9, Fire 10,
           PressUp 0, Fire 11, Fire 12,
           PressUp 0, Fire 14, Fire 13, Fire 16, Fire 17, Fire 15,
           Fire 18, Fire 19, Fire 20, Fire 21, Fire 22, Fire 23,
           PressUp 0, PressUp 0] (prv_init False)) =
     Some [Timer 25 200 ClearFeedbackCb, Timer 27 200 ClearFeedbackCb] \<and>
   map_option (pending GlyphFeedback)
     (run [PressSelect 0, Fire 0, Fire 1,
           PressUp 0, Fire 3, Fire 2, Fire 5, Fire 6, Fire 4,
           Fire 7, Fire 8, Fire 9, Fire 10,
           PressUp 0, Fire 11, Fire 12,
           PressUp 0, Fire 14, Fire 13, Fire 16, Fire 17, Fire 15,
           Fire 18, Fire 19, Fire 20, Fire 21, Fire 22, Fire 23,
           PressUp 0, PressUp 0] (prv_init False)) =
     Some [Timer 26 150 (ClearGlyphCb 0)] \<and>
   map_option (pending Acknowledge)
     (run [PressSelect 0, Fire 0, Fire 1,
           PressUp 0, Fire 3, Fire 2, Fire 5, Fire 6, Fire 4,
           Fire 7, Fire 8, Fire 9, Fire 10,
           PressUp 0, PressDown 0] (prv_init False)) =
     Some [Timer 12 200 ClearFeedbackCb] \<and>
   map_option s_game_over
     (run [PressSelect 0, Fire 0, Fire 1,
           PressUp 0, Fire 3, Fire 2, Fire 5, Fire 6, Fire 4,
           Fire 7, Fire 8, Fire 9, Fire 10,
           PressUp 0, PressDown 0] (prv_init False)) = Some True \<and>
   map_option (last \<circ> cues)
     (run [PressSelect 0, Fire 0, Fire 1,
           PressUp 0, Fire 3, Fire 2, Fire 5, Fire 6, Fire 4,
           Fire 7, Fire 8, Fire 9, Fire 10,
           PressUp 0, PressDown 0] (prv_init False)) = Some (ShowMessage ''Game Over'') \<and>
   map_option s_game_over
     (run [PressSelect 0, Fire 0, Fire 1,
           PressUp 0, Fire 3, Fire 2, Fire 5, Fire 6, Fire 4,
           Fire 7, Fire 8, Fire 9, Fire 10,
           PressUp 0, PressDown 0, Fire 12] (prv_init False)) = Some True \<and>
   map_option (last \<circ> cues)
     (run [PressSelect 0, Fire 0, Fire 1,
           PressUp 0, Fire 3, Fire 2, Fire 5, Fire 6, Fire 4,
           Fire 7, Fire 8, Fire 9, Fire 10,
           PressUp 0, PressDown 0, Fire 12] (prv_init False)) = Some (ShowMessage ''Your turn'')"
  by code_simp

text \<open>
  C10. Take a state reached from \<open>prv_init\<close>. If the game is over, no playback timer is
  pending, and after SELECT every pending playback timer was registered by the new round
  and is the one held in \<open>s_sequence_timer\<close>. If a transition timer is pending, no playback
  timer is pending either, and after that timer has fired the same holds. So
  \<open>start_show_sequence\<close> never drops the handle of a live timer, and no playback timer of
  an earlier round can fire into the new one.
\<close>

theorem begin_round_finds_no_playback_timer:
  assumes "run es (prv_init chalk) = Some g"
  shows "(s_game_over g \<longrightarrow>
      pending Playback g = [] \<and> s_sequence_timer g = None \<and>
      (\<exists>g'. prv_select_click_handler r g = Some g' \<and>
         (\<forall>u \<in> set (pending Playback g').
            next_timer g \<le> t_id u \<and> s_sequence_timer g' = Some (t_id u)))) \<and>
    (\<forall>t \<in> set (pending Transition g).
      pending Playback g = [] \<and> s_sequence_timer g = None \<and>
      (\<exists>g'. fire (t_id t) g = Some g' \<and>
         (\<forall>u \<in> set (pending Playback g').
            next_timer g \<le> t_id u \<and> s_sequence_timer g' = Some (t_id u))))"
proof -
  have inv: "game_inv g" using assms by (rule inv_reachable)
  then have fl: "flags_ok g" and b: "bounds_ok g" by (simp_all add: game_inv_def)
  have s: "slots_ok (next_timer g) (s_sequence_timer g) (s_feedback_timer g)
       (s_transition_timer g) (s_flash_timer g) (timers g)"
    using inv by (simp add: game_inv_def tracked_def)
  have idle: "pending Playback g = []" if "s_sequence_timer g = None"
    using s that by (simp add: slots_ok_def pending_def none_of_pending)
  have over: "pending Playback g = [] \<and> s_sequence_timer g = None \<and>
      (\<exists>g'. prv_select_click_handler r g = Some g' \<and>
         (\<forall>u \<in> set (pending Playback g').
            next_timer g \<le> t_id u \<and> s_sequence_timer g' = Some (t_id u)))"
    if go: "s_game_over g"
  proof -
    have n: "s_sequence_timer g = None" using fl go unfolding flags_ok_def by blast
    have "filter (\<lambda>t. category_of (t_cb t) = Playback) (timers g) = []"
      using idle [OF n] by (simp add: pending_def)
    then have "pending Playback (the (prv_select_click_handler r g)) =
        [Timer (next_timer g) (calc_show_ms 1) SequenceTimerCb]"
      by (simp add: select_restart_eq [OF go] pending_def)
    moreover have "prv_select_click_handler r g = Some (the (prv_select_click_handler r g))"
      by (simp add: select_restart_eq [OF go])
    moreover have "s_sequence_timer (the (prv_select_click_handler r g)) = Some (next_timer g)"
      by (simp add: select_restart_eq [OF go])
    ultimately have "\<exists>g'. prv_select_click_handler r g = Some g' \<and>
         (\<forall>u \<in> set (pending Playback g').
            next_timer g \<le> t_id u \<and> s_sequence_timer g' = Some (t_id u))"
      by (intro exI [of _ "the (prv_select_click_handler r g)"]) simp
    then show ?thesis using n idle [OF n] by simp
  qed
  have trans: "pending Playback g = [] \<and> s_sequence_timer g = None \<and>
      (\<exists>g'. fire (t_id t) g = Some g' \<and>
         (\<forall>u \<in> set (pending Playback g').
            next_timer g \<le> t_id u \<and> s_sequence_timer g' = Some (t_id u)))"
    if t: "t \<in> set (pending Transition g)" for t
  proof -
    have tm: "t \<in> set (timers g)" and "category_of (t_cb t) = Transition"
      using t by (simp_all add: pending_def)
    then have cb: "t_cb t = RoundTransitionCb" by (cases "t_cb t") simp_all
    have e: "s_transition_timer g = Some (t_id t)"
      using slots_expire [OF s tm] cb by simp
    then have n: "s_sequence_timer g = None" using fl unfolding flags_ok_def by auto
    have np: "none_of Playback (timers g)" using s n by (simp add: slots_ok_def)
    define X where "X = uncancelled (s_flash_timer g)
       (filter (\<lambda>u. t_id u \<noteq> t_id t) (timers g))"
    have X: "filter (\<lambda>t. category_of (t_cb t) = Playback) X = []"
      unfolding X_def using np by (simp add: none_of_pending)
    have "find (\<lambda>u. t_id u = t_id t) (timers g) = Some t"
      using s tm by (intro find_distinct) (simp_all add: slots_ok_def fresh_def)
    then have f: "fire (t_id t) g =
       begin_round (g\<lparr>timers := filter (\<lambda>u. t_id u \<noteq> t_id t) (timers g),
         s_transition_timer := None, timers := X, s_flash_timer := None, s_flash_phase := 0,
         effects := effects g @ [FlashDirty]\<rparr>)"
      by (simp add: fire_def cb run_callback_def round_transition_callback_eq X_def)
    have len: "0 \<le> s_seq_len g" "s_seq_len g \<le> 8"
      using b by (simp_all add: bounds_ok_def MAX_SEQUENCE_def)
    have "\<exists>g'. fire (t_id t) g = Some g' \<and>
         (\<forall>u \<in> set (pending Playback g').
            next_timer g \<le> t_id u \<and> s_sequence_timer g' = Some (t_id u))"
    proof (cases "s_seq_len g = 0")
      case True
      then have "fire (t_id t) g = Some (the (fire (t_id t) g))"
        "pending Playback (the (fire (t_id t) g)) = []"
        unfolding f using X by (simp_all add: begin_round_empty pending_def)
      then show ?thesis by (intro exI [of _ "the (fire (t_id t) g)"]) simp
    next
      case False
      then have "fire (t_id t) g = Some (the (fire (t_id t) g))"
        "pending Playback (the (fire (t_id t) g)) =
           [Timer (next_timer g) (calc_show_ms (s_seq_len g)) SequenceTimerCb]"
        "s_sequence_timer (the (fire (t_id t) g)) = Some (next_timer g)"
        unfolding f using X len by (simp_all add: begin_round_eq pending_def)
      then show ?thesis by (intro exI [of _ "the (fire (t_id t) g)"]) simp
    qed
    then show ?thesis using idle [OF n] n by simp
  qed
  show ?thesis using over trans by blast
qed

theorem begin_round_finds_no_playback_timer_witness:
  "s_game_over (prv_init False) \<and> pending Playback (prv_init False) = [] \<and>
   map t_id (pending Playback (the (prv_select_click_handler 0 (prv_init False)))) = [0] \<and>
   run [PressSelect 0, Fire 0, Fire 1, PressUp 0] (prv_init False) \<noteq> None \<and>
   pending Transition (the (run [PressSelect 0, Fire 0, Fire 1, PressUp 0] (prv_init False)))
     = [Timer 4 650 RoundTransitionCb] \<and>
   pending Playback (the (run [PressSelect 0, Fire 0, Fire 1, PressUp 0] (prv_init False)))
     = [] \<and>
   map t_id (pending Playback (the (fire 4
     (the (run [PressSelect 0, Fire 0, Fire 1, PressUp 0] (prv_init False)))))) = [5]"
proof -
  let ?es = "[PressSelect 0, Fire 0, Fire 1, PressUp 0]"
  have e: "run [] (prv_init False) = Some (prv_init False)" by simp
  obtain g where g: "run ?es (prv_init False) = Some g"
    using inv_run [OF inv_prv_init, of ?es False] by blast
  have v: "s_game_over (prv_init False) \<and>
    map t_id (pending Playback (the (prv_select_click_handler 0 (prv_init False)))) = [0] \<and>
    pending Transition (the (run ?es (prv_init False))) = [Timer 4 650 RoundTransitionCb] \<and>
    map t_id (pending Playback (the (fire 4 (the (run ?es (prv_init False)))))) = [5]"
    by code_simp
  then have m: "Timer 4 650 RoundTransitionCb \<in> set (pending Transition g)"
    using g by simp
  show ?thesis
    using begin_round_finds_no_playback_timer [OF e, of 0]
      begin_round_finds_no_playback_timer [OF g, of 0] m g v
    by auto
qed

lemma playback_tick_eq:
  assumes "s_sequence_timer g' = Some h" "timers g' = ts @ [Timer h ms SequenceTimerCb]"
    "fresh h ts"
  shows "playback_tick g' = sequence_timer_callback (g'\<lparr>timers := ts\<rparr>)"
  using assms fresh_find_new [OF assms(3), of ms SequenceTimerCb]
    fresh_filter_new [OF assms(3), of ms SequenceTimerCb]
  by (simp add: playback_tick_def fire_def run_callback_def)

lemma step_valid:
  "steps_ok g \<Longrightarrow> int k < s_seq_len g \<Longrightarrow> 0 \<le> s_sequence g ! k \<and> s_sequence g ! k \<le> 2"
  by (auto simp: steps_ok_def dest!: spec [where x = k])

lemma playback_begin:
  assumes "0 < s_seq_len g" "s_seq_len g \<le> 8" "steps_ok g"
  shows "\<exists>g'. playback 0 g = Some g' \<and> displaying g 0 g'"
  using assms step_valid [of g 0]
  by (simp add: begin_round_eq displaying_def seq_at_def cues_def)

lemma playback_pause:
  assumes "displaying g k g'" "int k < s_seq_len g" "s_seq_len g \<le> 8" "steps_ok g"
    "fresh (next_timer g) (timers g)" "length (s_sequence g) = 8"
  shows "\<exists>g''. playback_tick g' = Some g'' \<and> pausing g k g''"
proof -
  have f: "fresh (next_timer g + 2 * k) (timers g)"
    using assms(5) by (rule fresh_mono) simp
  have d: "s_showing g'" "s_show_index g' = int k" "s_show_phase g' = 1"
    "s_seq_len g' = s_seq_len g" "s_sequence g' = s_sequence g"
    using assms(1) by (simp_all add: displaying_def)
  have t: "playback_tick g' = sequence_timer_callback (g'\<lparr>timers := timers g\<rparr>)"
    using assms(1) f by (intro playback_tick_eq) (simp_all add: displaying_def)
  show ?thesis
    unfolding t
    using assms(1-4,6) d step_valid [OF assms(4,2)]
    by (simp add: sequence_timer_callback_pause seq_at_def pausing_def displaying_def
        take_Suc_conv_app_nth cue_pair_def cues_def)
qed

lemma playback_display:
  assumes "pausing g k g'" "int (Suc k) < s_seq_len g" "s_seq_len g \<le> 8" "steps_ok g"
    "fresh (next_timer g) (timers g)"
  shows "\<exists>g''. playback_tick g' = Some g'' \<and> displaying g (Suc k) g''"
proof -
  have f: "fresh (Suc (next_timer g + 2 * k)) (timers g)"
    using assms(5) by (rule fresh_mono) simp
  have d: "s_showing g'" "s_show_index g' = int k + 1" "s_show_phase g' = 0"
    "s_seq_len g' = s_seq_len g" "s_sequence g' = s_sequence g"
    using assms(1) by (simp_all add: pausing_def)
  have t: "playback_tick g' = sequence_timer_callback (g'\<lparr>timers := timers g\<rparr>)"
    using assms(1) f by (intro playback_tick_eq) (simp_all add: pausing_def)
  show ?thesis
    unfolding t
    using assms(1-4) d step_valid [OF assms(4,2)]
    by (simp add: sequence_timer_callback_display seq_at_def pausing_def displaying_def
        cues_def nat_add_distrib)
qed

lemma playback_finish:
  assumes "pausing g k g'" "int (Suc k) = s_seq_len g" "fresh (next_timer g) (timers g)"
  shows "\<exists>g''. playback_tick g' = Some g'' \<and>
    \<not> s_showing g'' \<and> \<not> s_game_over g'' \<and> \<not> s_transitioning g'' \<and>
    s_input_index g'' = 0 \<and> s_seq_len g'' = s_seq_len g \<and> s_sequence g'' = s_sequence g \<and>
    s_sequence_timer g'' = None \<and> timers g'' = timers g \<and>
    cues g'' = cues g @ concat (map cue_pair (take (Suc k) (s_sequence g))) @
      [Highlight 0 False, Highlight 1 False, Highlight 2 False, ShowMessage ''Your turn'']"
proof -
  have f: "fresh (Suc (next_timer g + 2 * k)) (timers g)"
    using assms(3) by (rule fresh_mono) simp
  have d: "s_showing g'" "s_show_index g' = int k + 1" "s_show_phase g' = 0"
    "s_seq_len g' = s_seq_len g" "s_sequence g' = s_sequence g"
    using assms(1) by (simp_all add: pausing_def)
  have t: "playback_tick g' = sequence_timer_callback (g'\<lparr>timers := timers g\<rparr>)"
    using assms(1) f by (intro playback_tick_eq) (simp_all add: pausing_def)
  show ?thesis
    unfolding t
    using assms(1,2) d
    by (simp add: sequence_timer_callback_finish pausing_def cues_def)
qed

lemma playback_steps:
  assumes "0 < s_seq_len g" "s_seq_len g \<le> 8" "length (s_sequence g) = 8" "steps_ok g"
    "fresh (next_timer g) (timers g)"
  shows "int k < s_seq_len g \<Longrightarrow>
    (\<exists>g'. playback (2 * k) g = Some g' \<and> displaying g k g') \<and>
    (\<exists>g'. playback (Suc (2 * k)) g = Some g' \<and> pausing g k g')"
proof (induction k)
  case 0
  from playback_begin [OF assms(1,2,4)] obtain g1
    where g1: "playback 0 g = Some g1" "displaying g 0 g1" by blast
  from playback_pause [OF g1(2) 0 assms(2,4,5,3)] obtain g2
    where "playback_tick g1 = Some g2" "pausing g 0 g2" by blast
  then show ?case using g1 by simp
next
  case (Suc k)
  then obtain g1 where g1: "playback (Suc (2 * k)) g = Some g1" "pausing g k g1" by auto
  from playback_display [OF g1(2) Suc.prems assms(2,4,5)] obtain g2
    where g2: "playback_tick g1 = Some g2" "displaying g (Suc k) g2" by blast
  from playback_pause [OF g2(2) Suc.prems assms(2,4,5,3)] obtain g3
    where g3: "playback_tick g2 = Some g3" "pausing g (Suc k) g3" by blast
  show ?case using g1 g2 g3 by simp
qed

text \<open>
  C1. Let \<open>begin_round\<close> be called with a sequence of length \<open>L\<close> between 1 and 8.
  \<open>begin_round\<close> itself puts step 0 on display. For every \<open>k < L\<close>, after \<open>2k\<close> expiries of
  the playback timer the cues presented so far are the display and pause cues of steps
  \<open>0..k-1\<close> in order followed by the display cue of step \<open>k\<close>, and a timer of the round's
  show duration is pending; after \<open>2k + 1\<close> expiries the pause cue of step \<open>k\<close> has
  followed, and a timer of 300 ms is pending. In both the sequence is still being shown.
  After \<open>2L\<close> expiries the cues are exactly the \<open>L\<close> pairs followed by the three glyphs
  being cleared and ``Your turn'', the showing flag is clear, input is accepted and no
  timer of the playback is left.
\<close>

theorem playback_presents_sequence:
  assumes "0 < s_seq_len g" "s_seq_len g \<le> 8" "length (s_sequence g) = 8" "steps_ok g"
    "fresh (next_timer g) (timers g)"
  shows "playback 0 g = begin_round g \<and>
    (\<forall>k. int k < s_seq_len g \<longrightarrow>
      (\<exists>g'. playback (2 * k) g = Some g' \<and> s_showing g' \<and>
         cues g' = cues g @ concat (map cue_pair (take k (s_sequence g))) @
           [ShowMessage (button_name (s_sequence g ! k)), Highlight (s_sequence g ! k) True] \<and>
         timers g' = timers g @
           [Timer (next_timer g + 2 * k) (calc_show_ms (s_seq_len g)) SequenceTimerCb]) \<and>
      (\<exists>g'. playback (2 * k + 1) g = Some g' \<and> s_showing g' \<and>
         cues g' = cues g @ concat (map cue_pair (take (Suc k) (s_sequence g))) \<and>
         timers g' = timers g @
           [Timer (next_timer g + 2 * k + 1) 300 SequenceTimerCb])) \<and>
    (\<exists>g'. playback (2 * nat (s_seq_len g)) g = Some g' \<and>
       \<not> s_showing g' \<and> accepting_input g' \<and>
       cues g' = cues g @ concat (map cue_pair (take (nat (s_seq_len g)) (s_sequence g))) @
         [Highlight 0 False, Highlight 1 False, Highlight 2 False, ShowMessage ''Your turn''] \<and>
       s_sequence_timer g' = None \<and> timers g' = timers g)"
proof -
  note steps = playback_steps [OF assms]
  have mid: "\<forall>k. int k < s_seq_len g \<longrightarrow>
      (\<exists>g'. playback (2 * k) g = Some g' \<and> s_showing g' \<and>
         cues g' = cues g @ concat (map cue_pair (take k (s_sequence g))) @
           [ShowMessage (button_name (s_sequence g ! k)), Highlight (s_sequence g ! k) True] \<and>
         timers g' = timers g @
           [Timer (next_timer g + 2 * k) (calc_show_ms (s_seq_len g)) SequenceTimerCb]) \<and>
      (\<exists>g'. playback (2 * k + 1) g = Some g' \<and> s_showing g' \<and>
         cues g' = cues g @ concat (map cue_pair (take (Suc k) (s_sequence g))) \<and>
         timers g' = timers g @
           [Timer (next_timer g + 2 * k + 1) 300 SequenceTimerCb])"
  proof (intro allI impI)
    fix k assume k: "int k < s_seq_len g"
    from steps [OF k] obtain g1 g2
      where g1: "playback (2 * k) g = Some g1" "displaying g k g1"
        and g2: "playback (Suc (2 * k)) g = Some g2" "pausing g k g2" by blast
    have "s_showing g1 \<and>
         cues g1 = cues g @ concat (map cue_pair (take k (s_sequence g))) @
           [ShowMessage (button_name (s_sequence g ! k)), Highlight (s_sequence g ! k) True] \<and>
         timers g1 = timers g @
           [Timer (next_timer g + 2 * k) (calc_show_ms (s_seq_len g)) SequenceTimerCb]"
      using g1(2) by (simp add: displaying_def)
    moreover have "s_showing g2 \<and>
         cues g2 = cues g @ concat (map cue_pair (take (Suc k) (s_sequence g))) \<and>
         timers g2 = timers g @
           [Timer (next_timer g + 2 * k + 1) 300 SequenceTimerCb]"
      using g2(2) by (simp add: pausing_def PAUSE_MS_def)
    moreover have "playback (2 * k + 1) g = Some g2" using g2(1) by simp
    ultimately show "(\<exists>g'. playback (2 * k) g = Some g' \<and> s_showing g' \<and>
         cues g' = cues g @ concat (map cue_pair (take k (s_sequence g))) @
           [ShowMessage (button_name (s_sequence g ! k)), Highlight (s_sequence g ! k) True] \<and>
         timers g' = timers g @
           [Timer (next_timer g + 2 * k) (calc_show_ms (s_seq_len g)) SequenceTimerCb]) \<and>
      (\<exists>g'. playback (2 * k + 1) g = Some g' \<and> s_showing g' \<and>
         cues g' = cues g @ concat (map cue_pair (take (Suc k) (s_sequence g))) \<and>
         timers g' = timers g @
           [Timer (next_timer g + 2 * k + 1) 300 SequenceTimerCb])"
      using g1(1) by blast
  qed
  define m where "m = nat (s_seq_len g) - 1"
  have m: "int (Suc m) = s_seq_len g" "int m < s_seq_len g" "nat (s_seq_len g) = Suc m"
    using assms(1) by (simp_all add: m_def)
  from steps [OF m(2)] obtain g2
    where g2: "playback (Suc (2 * m)) g = Some g2" "pausing g m g2" by blast
  from playback_finish [OF g2(2) m(1) assms(5)] obtain g3
    where g3: "playback_tick g2 = Some g3" "\<not> s_showing g3" "\<not> s_game_over g3"
      "\<not> s_transitioning g3" "s_input_index g3 = 0" "s_seq_len g3 = s_seq_len g"
      "s_sequence_timer g3 = None" "timers g3 = timers g"
      "cues g3 = cues g @ concat (map cue_pair (take (Suc m) (s_sequence g))) @
        [Highlight 0 False, Highlight 1 False, Highlight 2 False, ShowMessage ''Your turn'']"
    by blast
  have "playback (2 * nat (s_seq_len g)) g = Some g3"
    using g2(1) g3(1) by (simp add: m(3))
  moreover have "accepting_input g3"
    using g3 assms(1) by (simp add: accepting_input_def)
  ultimately have fin: "\<exists>g'. playback (2 * nat (s_seq_len g)) g = Some g' \<and>
       \<not> s_showing g' \<and> accepting_input g' \<and>
       cues g' = cues g @ concat (map cue_pair (take (nat (s_seq_len g)) (s_sequence g))) @
         [Highlight 0 False, Highlight 1 False, Highlight 2 False, ShowMessage ''Your turn''] \<and>
       s_sequence_timer g' = None \<and> timers g' = timers g"
    using g3 by (simp add: m(3))
  show ?thesis using mid fin by simp
qed

theorem playback_presents_sequence_witness:
  "steps_ok ((prv_init False)\<lparr>s_sequence := [2, 1, 0, 0, 0, 0, 0, 0], s_seq_len := 2\<rparr>) \<and>
   map_option cues (playback 2 ((prv_init False)\<lparr>s_sequence := [2, 1, 0, 0, 0, 0, 0, 0],
      s_seq_len := 2\<rparr>)) =
     Some (cues (prv_init False) @ cue_pair 2 @ [ShowMessage ''Select'', Highlight 1 True]) \<and>
   map_option s_showing (playback 3 ((prv_init False)\<lparr>s_sequence := [2, 1, 0, 0, 0, 0, 0, 0],
      s_seq_len := 2\<rparr>)) = Some True \<and>
   map_option cues (playback 4 ((prv_init False)\<lparr>s_sequence := [2, 1, 0, 0, 0, 0, 0, 0],
      s_seq_len := 2\<rparr>)) =
     Some (cues (prv_init False) @ cue_pair 2 @ cue_pair 1 @
       [Highlight 0 False, Highlight 1 False, Highlight 2 False, ShowMessage ''Your turn'']) \<and>
   map_option s_showing (playback 4 ((prv_init False)\<lparr>s_sequence := [2, 1, 0, 0, 0, 0, 0, 0],
      s_seq_len := 2\<rparr>)) = Some False"
proof -
  let ?g = "(prv_init False)\<lparr>s_sequence := [2, 1, 0, 0, 0, 0, 0, 0], s_seq_len := 2\<rparr>"
  have "\<forall>i<2. [2, 1, 0, 0, 0, 0, 0, 0::int] ! i \<in> {0, 1, 2}"
    by (simp add: nth_Cons')
  then have st: "steps_ok ?g" by (simp add: steps_ok_def)
  have h: "0 < s_seq_len ?g" "s_seq_len ?g \<le> 8" "length (s_sequence ?g) = 8"
    "fresh (next_timer ?g) (timers ?g)"
    by (simp_all add: prv_init_eq static_init_def)
  have f: "cues ?g = cues (prv_init False)" "s_sequence ?g = [2, 1, 0, 0, 0, 0, 0, 0]"
    "nat (s_seq_len ?g) = 2"
    by (simp_all add: cues_def)
  note t = playback_presents_sequence [OF h(1,2,3) st h(4)]
  from t have "\<exists>g'. playback (2 * 1) ?g = Some g' \<and> s_showing g' \<and>
         cues g' = cues ?g @ concat (map cue_pair (take 1 (s_sequence ?g))) @
           [ShowMessage (button_name (s_sequence ?g ! 1)), Highlight (s_sequence ?g ! 1) True]"
    by (elim conjE allE [where x = 1]) (auto simp del: playback.simps)
  then have a: "map_option cues (playback 2 ?g) =
     Some (cues (prv_init False) @ cue_pair 2 @ [ShowMessage ''Select'', Highlight 1 True])"
    unfolding f
    by (auto simp: button_name_def SEQ_BTN_UP_def SEQ_BTN_SELECT_def simp del: playback.simps)
  from t have "\<exists>g'. playback (2 * 1 + 1) ?g = Some g' \<and> s_showing g'"
    by (elim conjE allE [where x = 1]) (auto simp del: playback.simps)
  then have b: "map_option s_showing (playback 3 ?g) = Some True"
    by (auto simp del: playback.simps)
  from t have "\<exists>g'. playback (2 * nat (s_seq_len ?g)) ?g = Some g' \<and> \<not> s_showing g' \<and>
       cues g' = cues ?g @ concat (map cue_pair (take (nat (s_seq_len ?g)) (s_sequence ?g))) @
         [Highlight 0 False, Highlight 1 False, Highlight 2 False, ShowMessage ''Your turn'']"
    by blast
  then have c: "map_option cues (playback 4 ?g) =
     Some (cues (prv_init False) @ cue_pair 2 @ cue_pair 1 @
       [Highlight 0 False, Highlight 1 False, Highlight 2 False, ShowMessage ''Your turn'']) \<and>
     map_option s_showing (playback 4 ?g) = Some False"
    unfolding f by (auto simp del: playback.simps)
  show ?thesis using st a b c by simp
qed

lemma correct_presses:
  "game_inv g \<Longrightarrow> accepting_input g \<Longrightarrow> s_input_index g = int i \<Longrightarrow>
   int (i + k) < s_seq_len g \<Longrightarrow>
   \<exists>g'. presses (take k (drop i (s_sequence g))) r g = Some g' \<and>
     game_inv g' \<and> accepting_input g' \<and> s_input_index g' = int (i + k) \<and>
     s_sequence g' = s_sequence g \<and> s_seq_len g' = s_seq_len g \<and>
     platform_chalk g' = platform_chalk g"
proof (induction k arbitrary: i g)
  case 0
  then show ?case by simp
next
  case (Suc k)
  have b: "0 \<le> s_input_index g" "s_seq_len g \<le> 8" "length (s_sequence g) = 8"
    using Suc.prems(1) by (simp_all add: inv_defs MAX_SEQUENCE_def)
  then have i: "i < length (s_sequence g)" using Suc.prems(3,4) by simp
  have p: "s_sequence g ! i = seq_at g (s_input_index g)"
    using Suc.prems(3) by (simp add: seq_at_def)
  have ne: "s_input_index g + 1 \<noteq> s_seq_len g" using Suc.prems(3,4) by simp
  note eq = handle_input_good [OF Suc.prems(2) b(1,2) p ne, of r]
  from inv_handle_input [OF Suc.prems(1), of "s_sequence g ! i" r] obtain g1
    where g1: "handle_input (s_sequence g ! i) r g = Some g1" "game_inv g1" by blast
  have f: "accepting_input g1" "s_input_index g1 = int (Suc i)"
    "s_sequence g1 = s_sequence g" "s_seq_len g1 = s_seq_len g"
    "platform_chalk g1 = platform_chalk g"
    using g1(1) eq Suc.prems(2,3,4) by (auto simp: accepting_input_def)
  have "int (Suc i + k) < s_seq_len g1" using Suc.prems(4) f(4) by simp
  from Suc.IH [OF g1(2) f(1,2) this] obtain g2
    where g2: "presses (take k (drop (Suc i) (s_sequence g1))) r g1 = Some g2"
      "game_inv g2" "accepting_input g2" "s_input_index g2 = int (Suc i + k)"
      "s_sequence g2 = s_sequence g1" "s_seq_len g2 = s_seq_len g1"
      "platform_chalk g2 = platform_chalk g1"
    by blast
  have "take (Suc k) (drop i (s_sequence g)) =
      s_sequence g ! i # take k (drop (Suc i) (s_sequence g))"
    using i by (simp add: Cons_nth_drop_Suc [symmetric])
  then have "presses (take (Suc k) (drop i (s_sequence g))) r g = Some g2"
    using g1(1) g2(1) f(3) by simp
  then show ?case using g2 f by simp
qed

lemma round_lead_in:
  assumes "game_inv g" "accepting_input g"
  shows "\<exists>g1. presses (drop (nat (s_input_index g)) (take (nat (s_seq_len g) - 1) (s_sequence g)))
        r g = Some g1 \<and>
     game_inv g1 \<and> accepting_input g1 \<and> s_input_index g1 + 1 = s_seq_len g \<and>
     s_sequence g1 = s_sequence g \<and> s_seq_len g1 = s_seq_len g \<and>
     platform_chalk g1 = platform_chalk g"
proof -
  define i where "i = nat (s_input_index g)"
  define k where "k = nat (s_seq_len g) - 1 - i"
  have b: "0 \<le> s_input_index g" "s_input_index g < s_seq_len g"
    using assms by (simp_all add: inv_defs accepting_input_def)
  then have i: "s_input_index g = int i" "int (i + k) < s_seq_len g"
    "int (i + k) + 1 = s_seq_len g"
    by (simp_all add: i_def k_def)
  have "drop i (take (nat (s_seq_len g) - 1) (s_sequence g)) = take k (drop i (s_sequence g))"
    by (simp add: drop_take k_def)
  then show ?thesis
    using correct_presses [OF assms i(1,2), of r] i(3) by (auto simp: i_def)
qed

text \<open>
  C4. Take a round of length 8 in which input is accepted. Entering the steps that
  remain before the last one, each correctly, leaves the cursor at 7 and the sequence
  as it was. The last step entered correctly then sets the game-over flag and shows
  ``You win!''; neither the sequence nor its length changes: the length stays 8.
  From then on no button other than SELECT and no timer changes the session; SELECT
  starts a new game of length 1.
\<close>

theorem win_at_max_length:
  assumes "game_inv g" "accepting_input g" "s_seq_len g = 8"
  shows "\<exists>g1 g'.
    presses (drop (nat (s_input_index g)) (take 7 (s_sequence g))) r g = Some g1 \<and>
    accepting_input g1 \<and> s_input_index g1 = 7 \<and> s_sequence g1 = s_sequence g \<and>
    s_seq_len g1 = 8 \<and>
    handle_input (s_sequence g ! 7) r g1 = Some g' \<and>
    s_game_over g' \<and> s_seq_len g' = 8 \<and> s_sequence g' = s_sequence g \<and>
    s_input_index g' = 8 \<and> \<not> s_showing g' \<and> \<not> s_transitioning g' \<and>
    effects g' = effects g1 @ glyph_fx (s_sequence g ! 7) True @
      [Vibes ShortPulse, InfoText (info_text (g1\<lparr>s_game_over := True\<rparr>)),
       ShowMessage ''You win!''] \<and>
    (\<forall>es. (\<forall>r'. PressSelect r' \<notin> set es) \<longrightarrow>
       (\<exists>g''. run es g' = Some g'' \<and> session g'' = session g')) \<and>
    (\<forall>r'. \<exists>g''. dispatch (PressSelect r') g' = Some g'' \<and>
       \<not> s_game_over g'' \<and> s_seq_len g'' = 1 \<and> s_showing g'')"
proof -
  from round_lead_in [OF assms(1,2), of r] assms(3) obtain g1
    where g1: "presses (drop (nat (s_input_index g)) (take 7 (s_sequence g))) r g = Some g1"
      "game_inv g1" "accepting_input g1" "s_input_index g1 = 7"
      "s_sequence g1 = s_sequence g" "s_seq_len g1 = 8"
    by auto
  have p: "s_sequence g ! 7 = seq_at g1 7" using g1(5) by (simp add: seq_at_def)
  from win_last_press [OF g1(2,3,6,4) p, of r] g1 show ?thesis
    by (auto simp del: run.simps)
qed

theorem win_at_max_length_witness:
  "game_inv ((static_init False)\<lparr>s_seq_len := 8, s_input_index := 5, s_show_index := 8,
      s_round := 8\<rparr>) \<and>
   map_option s_input_index (presses [0, 0] 3 ((static_init False)\<lparr>s_seq_len := 8,
      s_input_index := 5, s_show_index := 8, s_round := 8\<rparr>)) = Some 7 \<and>
   map_option s_game_over (presses [0, 0, 0] 3 ((static_init False)\<lparr>s_seq_len := 8,
      s_input_index := 5, s_show_index := 8, s_round := 8\<rparr>)) = Some True \<and>
   map_option s_seq_len (presses [0, 0, 0] 3 ((static_init False)\<lparr>s_seq_len := 8,
      s_input_index := 5, s_show_index := 8, s_round := 8\<rparr>)) = Some 8 \<and>
   map_option s_sequence (presses [0, 0, 0] 3 ((static_init False)\<lparr>s_seq_len := 8,
      s_input_index := 5, s_show_index := 8, s_round := 8\<rparr>)) =
     Some [0, 0, 0, 0, 0, 0, 0, 0]"
proof -
  let ?g = "(static_init False)\<lparr>s_seq_len := 8, s_input_index := 5, s_show_index := 8,
      s_round := 8\<rparr>"
  have "\<forall>i<8. [0, 0, 0, 0, 0, 0, 0, 0::int] ! i \<in> {0, 1, 2}"
    by (simp add: nth_Cons')
  then have inv: "game_inv ?g"
    by (simp add: inv_defs static_init_def slots_ok_def MAX_SEQUENCE_def)
  have a: "accepting_input ?g" "s_seq_len ?g = 8"
    by (simp_all add: accepting_input_def static_init_def)
  have l: "drop (nat (s_input_index ?g)) (take 7 (s_sequence ?g)) = [0, 0]"
    "s_sequence ?g ! 7 = 0" "s_sequence ?g = [0, 0, 0, 0, 0, 0, 0, 0]"
    by (simp_all add: static_init_def)
  from win_at_max_length [OF inv a, of 3, unfolded l(1,2), unfolded l(3)] obtain g1 g'
    where w: "presses [0, 0] 3 ?g = Some g1" "s_input_index g1 = 7"
      "handle_input 0 3 g1 = Some g'" "s_game_over g'" "s_seq_len g' = 8"
      "s_sequence g' = [0, 0, 0, 0, 0, 0, 0, 0]"
    by blast
  have "presses [0, 0, 0] 3 ?g = Some g'"
    using w(1,3) by (auto split: option.splits)
  then show ?thesis using inv w by simp
qed

text \<open>
  C3. Take a round of length \<open>L < 8\<close> in which input is accepted. Entering the steps
  that remain before the last one, each correctly, leaves the cursor at \<open>L - 1\<close> and the
  sequence as it was. The last step entered correctly then stores one step in cell \<open>L\<close>
  and makes the length and the round \<open>L + 1\<close>. The motor gets the short pulse of the
  press, then a double pulse, then a short pulse if \<open>L + 1\<close> is 4 or 6, or a long pulse
  if it is 8. The flash animation is started with 5 cycles for 4 and 6, 7 for 8 and 3
  otherwise, and exactly one transition timer is pending, of \<open>150 * cycles + 200\<close> ms.
  Whatever happens before that timer fires (presses, ticks of the flash animation that
  advance the flash phase, other timers), the session stays as the press left it and the
  transition timer stays the one pending. When it fires, no flash timer is left pending,
  the flash phase is 0 again, and \<open>begin_round\<close> has run: the transition flag is clear and
  the sequence of length \<open>L + 1\<close> is being shown from its first step, whose playback timer
  of \<open>calc_show_ms (L + 1)\<close> ms is the one pending.
\<close>

theorem round_complete_transition:
  assumes "game_inv g" "accepting_input g" "s_seq_len g < 8"
  shows "\<exists>g1 g'.
    presses (drop (nat (s_input_index g)) (take (nat (s_seq_len g) - 1) (s_sequence g))) r g
      = Some g1 \<and>
    accepting_input g1 \<and> s_input_index g1 + 1 = s_seq_len g \<and>
    s_sequence g1 = s_sequence g \<and> s_seq_len g1 = s_seq_len g \<and>
    handle_input (s_sequence g ! (nat (s_seq_len g) - 1)) r g1 = Some g' \<and>
    s_seq_len g' = s_seq_len g + 1 \<and>
    s_sequence g' = (s_sequence g)[nat (s_seq_len g) := int (r mod 3)] \<and>
    s_round g' = s_seq_len g + 1 \<and>
    s_transitioning g' \<and> \<not> s_showing g' \<and> \<not> s_game_over g' \<and>
    effects g' = effects g1 @ glyph_fx (s_sequence g ! (nat (s_seq_len g) - 1)) True @
      [Vibes ShortPulse, InfoText (''Round: '' @ dec_int (s_seq_len g + 1)),
       Vibes DoublePulse] @
      (if s_seq_len g + 1 = 4 \<or> s_seq_len g + 1 = 6 then [Vibes ShortPulse]
       else if s_seq_len g + 1 = 8 then [Vibes LongPulse] else []) @
      [ShowMessage (''Length '' @ dec_int (s_seq_len g + 1)), FlashDirty] \<and>
    s_flash_phase g' = 0 \<and>
    s_flash_timer g' = Some (Suc (next_timer g1)) \<and>
    pending Flash g' =
      [Timer (Suc (next_timer g1)) (if platform_chalk g then 180 else 140)
         (FlashTickCb (if s_seq_len g + 1 = 4 \<or> s_seq_len g + 1 = 6 then 5
                       else if s_seq_len g + 1 = 8 then 7 else 3))] \<and>
    s_transition_timer g' = Some (Suc (Suc (next_timer g1))) \<and>
    pending Transition g' =
      [Timer (Suc (Suc (next_timer g1)))
         (150 * (if s_seq_len g + 1 = 4 \<or> s_seq_len g + 1 = 6 then 5
                 else if s_seq_len g + 1 = 8 then 7 else 3) + 200)
         RoundTransitionCb] \<and>
    (\<forall>es. Fire (Suc (Suc (next_timer g1))) \<notin> set es \<longrightarrow>
       (\<exists>g2 g''. run es g' = Some g2 \<and> session g2 = session g' \<and>
          s_transition_timer g2 = Some (Suc (Suc (next_timer g1))) \<and>
          map t_id (pending Transition g2) = [Suc (Suc (next_timer g1))] \<and>
          fire (Suc (Suc (next_timer g1))) g2 = Some g'' \<and>
          pending Flash g'' = [] \<and> s_flash_timer g'' = None \<and> s_flash_phase g'' = 0 \<and>
          pending Transition g'' = [] \<and> s_transition_timer g'' = None \<and>
          \<not> s_transitioning g'' \<and> s_showing g'' \<and> \<not> s_game_over g'' \<and>
          s_sequence g'' = s_sequence g' \<and> s_seq_len g'' = s_seq_len g + 1 \<and>
          s_round g'' = s_seq_len g + 1 \<and> s_input_index g'' = 0 \<and> s_show_index g'' = 0 \<and>
          s_show_phase g'' = 1 \<and>
          s_show_ms_current g'' = calc_show_ms (s_seq_len g + 1) \<and>
          s_sequence_timer g'' = Some (next_timer g2) \<and>
          pending Playback g'' =
            [Timer (next_timer g2) (calc_show_ms (s_seq_len g + 1)) SequenceTimerCb]))"
proof -
  from round_lead_in [OF assms(1,2), of r] obtain g1
    where g1: "presses (drop (nat (s_input_index g))
          (take (nat (s_seq_len g) - 1) (s_sequence g))) r g = Some g1"
      "game_inv g1" "accepting_input g1" "s_input_index g1 + 1 = s_seq_len g"
      "s_sequence g1 = s_sequence g" "s_seq_len g1 = s_seq_len g"
      "platform_chalk g1 = platform_chalk g"
    by blast
  have n: "nat (s_input_index g1) = nat (s_seq_len g) - 1" using g1(4) by linarith
  have p: "s_sequence g ! (nat (s_seq_len g) - 1) = seq_at g1 (s_input_index g1)"
    using g1(5) n by (simp add: seq_at_def)
  have c: "s_input_index g1 + 1 = s_seq_len g1" "s_seq_len g1 < 8"
    using g1(4,6) assms(3) by simp_all
  note t = complete_last_press [OF g1(2,3) c p, of r, unfolded g1(5,6,7)]
  show ?thesis
    using t g1(1,3,4,5,6)
    by (elim exE conjE) (intro exI conjI; assumption)
qed

theorem round_complete_transition_witness:
  "game_inv ((static_init False)\<lparr>s_seq_len := 3, s_input_index := 1, s_show_index := 3,
      s_round := 3\<rparr>) \<and>
   map_option s_input_index (presses [0] 7 ((static_init False)\<lparr>s_seq_len := 3,
      s_input_index := 1, s_show_index := 3, s_round := 3\<rparr>)) = Some 2 \<and>
   map_option s_seq_len (presses [0, 0] 7 ((static_init False)\<lparr>s_seq_len := 3,
      s_input_index := 1, s_show_index := 3, s_round := 3\<rparr>)) = Some 4 \<and>
   map_option s_sequence (presses [0, 0] 7 ((static_init False)\<lparr>s_seq_len := 3,
      s_input_index := 1, s_show_index := 3, s_round := 3\<rparr>)) =
     Some [0, 0, 0, 1, 0, 0, 0, 0] \<and>
   map_option (pending Transition) (presses [0, 0] 7 ((static_init False)\<lparr>s_seq_len := 3,
      s_input_index := 1, s_show_index := 3, s_round := 3\<rparr>)) =
     Some [Timer 4 950 RoundTransitionCb] \<and>
   map_option (pending Flash) (presses [0, 0] 7 ((static_init False)\<lparr>s_seq_len := 3,
      s_input_index := 1, s_show_index := 3, s_round := 3\<rparr>)) =
     Some [Timer 3 140 (FlashTickCb 5)] \<and>
   Fire 4 \<notin> set [Fire 3, PressUp 1] \<and>
   map_option s_flash_phase (Option.bind (presses [0, 0] 7 ((static_init False)\<lparr>s_seq_len := 3,
      s_input_index := 1, s_show_index := 3, s_round := 3\<rparr>)) (run [Fire 3, PressUp 1])) =
     Some 1 \<and>
   map_option (pending Flash) (Option.bind (presses [0, 0] 7 ((static_init False)\<lparr>s_seq_len := 3,
      s_input_index := 1, s_show_index := 3, s_round := 3\<rparr>)) (run [Fire 3, PressUp 1])) =
     Some [Timer 5 140 (FlashTickCb 5)] \<and>
   map_option s_flash_phase (Option.bind (presses [0, 0] 7 ((static_init False)\<lparr>s_seq_len := 3,
      s_input_index := 1, s_show_index := 3, s_round := 3\<rparr>))
      (run [Fire 3, PressUp 1, Fire 4])) = Some 0 \<and>
   map_option (pending Flash) (Option.bind (presses [0, 0] 7 ((static_init False)\<lparr>s_seq_len := 3,
      s_input_index := 1, s_show_index := 3, s_round := 3\<rparr>))
      (run [Fire 3, PressUp 1, Fire 4])) = Some [] \<and>
   map_option (pending Playback) (Option.bind (presses [0, 0] 7 ((static_init False)\<lparr>s_seq_len := 3,
      s_input_index := 1, s_show_index := 3, s_round := 3\<rparr>))
      (run [Fire 3, PressUp 1, Fire 4])) = Some [Timer 6 545 SequenceTimerCb] \<and>
   map_option s_showing (Option.bind (presses [0, 0] 7 ((static_init False)\<lparr>s_seq_len := 3,
      s_input_index := 1, s_show_index := 3, s_round := 3\<rparr>))
      (run [Fire 3, PressUp 1, Fire 4])) = Some True"
proof -
  let ?g = "(static_init False)\<lparr>s_seq_len := 3, s_input_index := 1, s_show_index := 3,
      s_round := 3\<rparr>"
  have "\<forall>i<3. [0, 0, 0, 0, 0, 0, 0, 0::int] ! i \<in> {0, 1, 2}"
    by (simp add: nth_Cons')
  then have inv: "game_inv ?g"
    by (simp add: inv_defs static_init_def slots_ok_def MAX_SEQUENCE_def)
  have a: "accepting_input ?g" "s_seq_len ?g < 8"
    by (simp_all add: accepting_input_def static_init_def)
  have l: "drop (nat (s_input_index ?g)) (take (nat (s_seq_len ?g) - 1) (s_sequence ?g)) = [0]"
    "s_sequence ?g ! (nat (s_seq_len ?g) - 1) = 0" "s_sequence ?g = [0, 0, 0, 0, 0, 0, 0, 0]"
    "s_seq_len ?g = 3" "platform_chalk ?g = False"
    by (simp_all add: static_init_def)
  have n: "map_option next_timer (presses [0] 7 ?g) = Some 2"
    by code_simp
  have i: "map_option s_input_index (presses [0] 7 ?g) = Some 2"
    by code_simp
  have ph: "map_option s_flash_phase (Option.bind (presses [0, 0] 7 ?g)
      (run [Fire 3, PressUp 1])) = Some 1"
    by code_simp
  have pf: "map_option (pending Flash) (Option.bind (presses [0, 0] 7 ?g)
      (run [Fire 3, PressUp 1])) = Some [Timer 5 140 (FlashTickCb 5)]"
    by code_simp
  have nt: "map_option next_timer (Option.bind (presses [0, 0] 7 ?g)
      (run [Fire 3, PressUp 1])) = Some 6"
    by code_simp
  have ms: "calc_show_ms 4 = 545"
    by (simp add: calc_show_ms_def SHOW_MS_def int32_def)
  note t = round_complete_transition [OF inv a, of 7, unfolded l(1,2), unfolded l(3,4,5)]
  from t obtain g1 g'
    where w: "presses [0] 7 ?g = Some g1"
      "handle_input 0 7 g1 = Some g'" "s_seq_len g' = 3 + 1"
      "s_sequence g' = [0, 0, 0, 0, 0, 0, 0, 0][nat 3 := int (7 mod 3)]"
      "pending Transition g' =
        [Timer (Suc (Suc (next_timer g1)))
          (150 * (if (3::int) + 1 = 4 \<or> (3::int) + 1 = 6 then 5
                  else if (3::int) + 1 = 8 then 7 else 3) + 200) RoundTransitionCb]"
      "pending Flash g' =
        [Timer (Suc (next_timer g1)) (if False then 180 else 140)
          (FlashTickCb (if (3::int) + 1 = 4 \<or> (3::int) + 1 = 6 then 5
                        else if (3::int) + 1 = 8 then 7 else 3))]"
      and later: "\<forall>es. Fire (Suc (Suc (next_timer g1))) \<notin> set es \<longrightarrow>
       (\<exists>g2 g''. run es g' = Some g2 \<and> session g2 = session g' \<and>
          s_transition_timer g2 = Some (Suc (Suc (next_timer g1))) \<and>
          map t_id (pending Transition g2) = [Suc (Suc (next_timer g1))] \<and>
          fire (Suc (Suc (next_timer g1))) g2 = Some g'' \<and>
          pending Flash g'' = [] \<and> s_flash_timer g'' = None \<and> s_flash_phase g'' = 0 \<and>
          pending Transition g'' = [] \<and> s_transition_timer g'' = None \<and>
          \<not> s_transitioning g'' \<and> s_showing g'' \<and> \<not> s_game_over g'' \<and>
          s_sequence g'' = s_sequence g' \<and> s_seq_len g'' = 3 + 1 \<and>
          s_round g'' = 3 + 1 \<and> s_input_index g'' = 0 \<and> s_show_index g'' = 0 \<and>
          s_show_phase g'' = 1 \<and>
          s_show_ms_current g'' = calc_show_ms (3 + 1) \<and>
          s_sequence_timer g'' = Some (next_timer g2) \<and>
          pending Playback g'' =
            [Timer (next_timer g2) (calc_show_ms (3 + 1)) SequenceTimerCb])"
    by (elim exE conjE) (rule that; assumption)
  have u: "[0, 0, 0, 0, 0, 0, 0, 0][nat 3 := int (7 mod 3)] = [0, 0, 0, 1, 0, 0, 0, 0::int]"
    by code_simp
  have p: "presses [0, 0] 7 ?g = Some g'"
    using w(1,2) by (auto split: option.splits)
  have m: "next_timer g1 = 2" "s_input_index g1 = 2"
    using n i w(1) by simp_all
  have mem: "Fire (Suc (Suc (next_timer g1))) \<notin> set [Fire 3, PressUp 1]"
    using m(1) by simp
  from later [rule_format, OF mem] obtain g2 g''
    where y: "run [Fire 3, PressUp 1] g' = Some g2"
      "fire (Suc (Suc (next_timer g1))) g2 = Some g''"
      "pending Flash g'' = []" "s_flash_phase g'' = 0" "s_showing g''"
      "pending Playback g'' = [Timer (next_timer g2) (calc_show_ms (3 + 1)) SequenceTimerCb]"
    by (elim exE conjE) (rule that; assumption)
  have f4: "fire 4 g2 = Some g''" using y(2) m(1) by simp
  note z = y(1) f4 y(3,4,5,6)
  have n2: "next_timer g2 = 6" using nt p z(1) by simp
  have app: "run [Fire 3, PressUp 1, Fire 4] g' = Some g''"
    using z(1,2) by (auto simp: dispatch_def split: option.splits)
  have "pending Transition g' = [Timer 4 950 RoundTransitionCb]"
    using w(5) m by simp
  moreover have "pending Flash g' = [Timer 3 140 (FlashTickCb 5)]"
    using w(6) m by simp
  moreover have "s_seq_len g' = 4" using w(3) by simp
  moreover have "s_sequence g' = [0, 0, 0, 1, 0, 0, 0, 0]" using w(4) u by simp
  moreover have "pending Playback g'' = [Timer 6 545 SequenceTimerCb]"
    using z(6) n2 ms by simp
  moreover have "map_option s_flash_phase (Option.bind (presses [0, 0] 7 ?g)
      (run [Fire 3, PressUp 1, Fire 4])) = Some 0"
    using z(4) app p by (simp del: run.simps)
  moreover have "map_option (pending Flash) (Option.bind (presses [0, 0] 7 ?g)
      (run [Fire 3, PressUp 1, Fire 4])) = Some []"
    using z(3) app p by (simp del: run.simps)
  moreover have "map_option s_showing (Option.bind (presses [0, 0] 7 ?g)
      (run [Fire 3, PressUp 1, Fire 4])) = Some True"
    using z(5) app p by (simp del: run.simps)
  moreover have "map_option (pending Playback) (Option.bind (presses [0, 0] 7 ?g)
      (run [Fire 3, PressUp 1, Fire 4])) = Some [Timer 6 545 SequenceTimerCb]"
    using calculation(5) app p by (simp del: run.simps)
  ultimately show ?thesis using inv w(1) p m ph pf by (simp del: run.simps)
qed

end
